theory Spec2Isabelle
  imports Main "HOL-Library.Sublist"
begin

section \<open>Python strings\<close>

text \<open>
  A Python \<open>str\<close> is a sequence of code points. The model keeps the code points below
  256 (ASCII and the Latin-1 supplement): a \<open>char\<close> is one code point, \<open>ord\<close> reads it.
  Bytes (\<open>response.content\<close>) are lists of \<open>char\<close> as well.
\<close>

definition ord :: "char \<Rightarrow> nat" where
  "ord c = of_char c"

definition ascii_upper :: "char \<Rightarrow> bool" where
  "ascii_upper c = (65 \<le> ord c \<and> ord c \<le> 90)"

definition ascii_lower :: "char \<Rightarrow> bool" where
  "ascii_lower c = (97 \<le> ord c \<and> ord c \<le> 122)"

definition ascii_digit :: "char \<Rightarrow> bool" where
  "ascii_digit c = (48 \<le> ord c \<and> ord c \<le> 57)"

text \<open>
  \<open>str.isalnum\<close> beyond ASCII, for the code points 128 to 255: the letters
  (U+00AA, U+00B5, U+00BA, U+00C0 to U+00FF without the signs U+00D7 and U+00F7) and the
  numeric characters (superscripts U+00B2, U+00B3, U+00B9, fractions U+00BC to U+00BE).
\<close>

definition latin1_alnum :: "char \<Rightarrow> bool" where
  "latin1_alnum c =
     (ord c = 170 \<or> ord c = 178 \<or> ord c = 179 \<or> ord c = 181 \<or> ord c = 185 \<or> ord c = 186 \<or>
      (188 \<le> ord c \<and> ord c \<le> 190) \<or> (192 \<le> ord c \<and> ord c \<le> 214) \<or>
      (216 \<le> ord c \<and> ord c \<le> 246) \<or> 248 \<le> ord c)"

definition isalnum :: "char \<Rightarrow> bool" where
  "isalnum c = (ascii_upper c \<or> ascii_lower c \<or> ascii_digit c \<or> latin1_alnum c)"

text \<open>The class \<open>\w\<close> of \<open>re\<close> on a \<open>str\<close> pattern: alphanumeric, or the underscore.\<close>

definition re_word :: "char \<Rightarrow> bool" where
  "re_word c = (isalnum c \<or> c = CHR ''_'')"

text \<open>
  \<open>str.lower\<close>, one code point at a time: A to Z, and the capital letters U+00C0 to
  U+00DE (without the sign U+00D7), move up by 32, which sets bit 5.
\<close>

definition char_lower :: "char \<Rightarrow> char" where
  "char_lower c =
     (if ascii_upper c \<or> (192 \<le> ord c \<and> ord c \<le> 222 \<and> ord c \<noteq> 215)
      then Char (digit0 c) (digit1 c) (digit2 c) (digit3 c) (digit4 c) True (digit6 c) (digit7 c)
      else c)"

definition lower :: "string \<Rightarrow> string" where
  "lower s = map char_lower s"

text \<open>\<open>sub in s\<close>, \<open>s.startswith(p)\<close> and \<open>s.endswith(p)\<close>.\<close>

fun contains :: "string \<Rightarrow> string \<Rightarrow> bool" where
  "contains [] sub = (sub = [])"
| "contains (c # cs) sub = (prefix sub (c # cs) \<or> contains cs sub)"

definition startswith :: "string \<Rightarrow> string \<Rightarrow> bool" where
  "startswith s p = prefix p s"

definition endswith :: "string \<Rightarrow> string \<Rightarrow> bool" where
  "endswith s p = prefix (rev p) (rev s)"

text \<open>
  \<open>s.split(sep)\<close> for a non-empty separator: the pieces between the occurrences of
  \<open>sep\<close>, found from the left without overlap. \<open>skip\<close> counts the characters of a
  separator still to pass.
\<close>

fun split_from :: "string \<Rightarrow> nat \<Rightarrow> string \<Rightarrow> string \<Rightarrow> string list" where
  "split_from sep skip acc [] = [rev acc]"
| "split_from sep skip acc (c # cs) =
     (if 0 < skip then split_from sep (skip - 1) acc cs
      else if prefix sep (c # cs) then rev acc # split_from sep (length sep - 1) [] cs
      else split_from sep 0 (c # acc) cs)"

definition split :: "string \<Rightarrow> string \<Rightarrow> string list" where
  "split s sep = split_from sep 0 [] s"

text \<open>\<open>s.strip('/')\<close>: the slashes at both ends go.\<close>

definition strip_slash :: "string \<Rightarrow> string" where
  "strip_slash s =
     rev (dropWhile (\<lambda>c. c = CHR ''/'') (rev (dropWhile (\<lambda>c. c = CHR ''/'') s)))"

text \<open>\<open>str(n)\<close> for a natural number.\<close>

fun str :: "nat \<Rightarrow> string" where
  "str n = (if n < 10 then [''0123456789'' ! n] else str (n div 10) @ [''0123456789'' ! (n mod 10)])"

section \<open>Paths (\<open>os.path\<close>, POSIX)\<close>

definition basename :: "string \<Rightarrow> string" where
  "basename p = rev (takeWhile (\<lambda>c. c \<noteq> CHR ''/'') (rev p))"

text \<open>
  \<open>os.path.dirname\<close>: the part before the last slash, without its trailing slashes
  unless it consists of slashes only.
\<close>

definition dirname :: "string \<Rightarrow> string" where
  "dirname p =
     (let h = rev (dropWhile (\<lambda>c. c \<noteq> CHR ''/'') (rev p))
      in if h \<noteq> [] \<and> \<not> list_all (\<lambda>c. c = CHR ''/'') h
         then rev (dropWhile (\<lambda>c. c = CHR ''/'') (rev h)) else h)"

definition join2 :: "string \<Rightarrow> string \<Rightarrow> string" where
  "join2 a b =
     (if startswith b ''/'' then b
      else if a = [] \<or> endswith a ''/'' then a @ b
      else a @ ''/'' @ b)"

definition join :: "string \<Rightarrow> string list \<Rightarrow> string" where
  "join a ps = foldl join2 a ps"

section \<open>The world outside the program\<close>

text \<open>
  The library functions the scripts call, the remote servers and the disk are not part of
  the repository. They are parameters of the model: every theorem holds for every
  \<open>env\<close>, and the examples fix one.

  \<^item> \<open>urlparse\<close>, \<open>urljoin\<close>, \<open>urlencode\<close> (\<open>urllib.parse\<close>), \<open>BeautifulSoup\<close> and
    \<open>json_loads\<close> (the decoder behind \<open>response.json()\<close>; both \<open>None\<close> when they
    raise) are functions of their arguments.
  \<^item> \<open>http\<close> answers a request: \<open>None\<close> when \<open>requests\<close> raises a
    \<open>RequestException\<close> (timeout, connection error), a response otherwise. The answer may
    depend on everything that happened before (the trace), which covers the cookies of a
    \<open>Session\<close> and servers that fail now and answer later.
  \<^item> \<open>fs_fails\<close> tells whether a call to the file system raises \<open>OSError\<close>.
  \<^item> \<open>time_now\<close> is \<open>int(time.time())\<close>.
  Console output is not modelled.
\<close>

record parsed =
  netloc :: string
  path :: string
  query :: string

text \<open>A tag of the parsed document: its name and its attributes.\<close>

record tag =
  tag_name :: string
  attrs :: "(string \<times> string) list"

text \<open>\<open>tag.get(k)\<close> and \<open>tag.get(k, d)\<close>.\<close>

definition attr :: "tag \<Rightarrow> string \<Rightarrow> string option" where
  "attr t k = map_of (attrs t) k"

definition attr_or :: "tag \<Rightarrow> string \<Rightarrow> string \<Rightarrow> string" where
  "attr_or t k d = (case attr t k of None \<Rightarrow> d | Some v \<Rightarrow> v)"

text \<open>
  What the scripts read of a \<open>BeautifulSoup\<close> document: the \<open>href\<close> of every
  \<open><a href=...>\<close> in document order (\<open>soup.find_all('a', href=True)\<close>), the forms (each
  with the tags inside it, in document order), and the text \<open>str(soup)\<close>.
\<close>

record form =
  form_tag :: tag
  form_fields :: "tag list"

record soup =
  a_hrefs :: "string list"
  forms :: "form list"
  soup_str :: string

record response =
  status_code :: nat
  resp_url :: string
  content_type :: "string option"
  resp_content :: string
  resp_text :: string
  stream_breaks :: "nat option"

text \<open>
  \<open>stream_breaks = Some k\<close>: on a request with \<open>stream=True\<close>, reading the body raises
  after \<open>k\<close> chunks have been delivered. A request without \<open>stream\<close> reads the body
  inside \<open>requests.get\<close>, where a failure is the answer \<open>None\<close> of \<open>http\<close>.

  A request is its method, URL, form data (\<open>POST\<close>), timeout in seconds and the
  \<open>stream\<close> flag (\<open>GET\<close>). The fixed \<open>User-Agent\<close>, \<open>Referer\<close> and \<open>Origin\<close> headers are
  left out.
\<close>

datatype request =
  GET string nat bool
| POST string "(string \<times> string) list" nat

datatype fs_call =
  Makedirs string
| Open_wb string
| Write string string
| Getsize string

text \<open>
  The trace records, in order, every HTTP request sent, every \<open>time.sleep\<close> (in
  milliseconds), every call to the file system, and every call of \<open>get_page\<close> (one page
  fetch, which sends up to \<open>retries\<close> requests).
\<close>

datatype event =
  Http request
| Sleep nat
| Fs fs_call
| Call_get_page string

text \<open>A decoded JSON value (\<open>response.json()\<close>).\<close>

datatype json =
  JNull
| JBool bool
| JNum int
| JStr string
| JArr "json list"
| JObj "(string \<times> json) list"

record env =
  urlparse :: "string \<Rightarrow> parsed"
  urljoin :: "string \<Rightarrow> string \<Rightarrow> string"
  urlencode :: "(string \<times> string) list \<Rightarrow> string"
  BeautifulSoup :: "string \<Rightarrow> soup option"
  json_loads :: "string \<Rightarrow> json option"
  http :: "event list \<Rightarrow> request \<Rightarrow> response option"
  fs_fails :: "event list \<Rightarrow> fs_call \<Rightarrow> bool"
  time_now :: "event list \<Rightarrow> nat"

text \<open>
  The state of a run: the two module-level sets, the trace, and the files on disk
  (path to content).
\<close>

record state =
  VISITED_URLS :: "string set"
  DOWNLOADED_FILES :: "string set"
  trace :: "event list"
  files :: "string \<rightharpoonup> string"

definition init_state :: state where
  "init_state = \<lparr>VISITED_URLS = {}, DOWNLOADED_FILES = {}, trace = [], files = Map.empty\<rparr>"

definition log :: "event \<Rightarrow> state \<Rightarrow> state" where
  "log e s = s\<lparr>trace := trace s @ [e]\<rparr>"

definition sleep :: "nat \<Rightarrow> state \<Rightarrow> state" where
  "sleep ms s = log (Sleep ms) s"

text \<open>
  \<open>session.get\<close>/\<open>requests.get\<close> followed by \<open>response.raise_for_status()\<close>: \<open>None\<close>
  when either raises (a status from 400 to 599 raises \<open>HTTPError\<close>, a
  \<open>RequestException\<close>).
\<close>

definition raises_for_status :: "response \<Rightarrow> bool" where
  "raises_for_status r = (400 \<le> status_code r \<and> status_code r < 600)"

definition send :: "env \<Rightarrow> request \<Rightarrow> state \<Rightarrow> response option \<times> state" where
  "send env req s = (http env (trace s) req, log (Http req) s)"

definition send_checked :: "env \<Rightarrow> request \<Rightarrow> state \<Rightarrow> response option \<times> state" where
  "send_checked env req s =
     (case send env req s of
        (None, s1) \<Rightarrow> (None, s1)
      | (Some r, s1) \<Rightarrow> (if raises_for_status r then None else Some r, s1))"

text \<open>\<open>response.headers.get('Content-Type', '').lower()\<close>.\<close>

definition content_type_lower :: "response \<Rightarrow> string" where
  "content_type_lower r = lower (case content_type r of None \<Rightarrow> [] | Some v \<Rightarrow> v)"

text \<open>
  A call to the file system: \<open>False\<close> when it raises. \<open>open(p, 'wb')\<close> creates or
  empties the file, \<open>f.write(chunk)\<close> appends, the others leave the contents alone.
\<close>

definition fs_effect :: "fs_call \<Rightarrow> (string \<rightharpoonup> string) \<Rightarrow> (string \<rightharpoonup> string)" where
  "fs_effect c fsys =
     (case c of
        Open_wb p \<Rightarrow> fsys(p \<mapsto> [])
      | Write p chunk \<Rightarrow> fsys(p \<mapsto> (case fsys p of None \<Rightarrow> [] | Some old \<Rightarrow> old) @ chunk)
      | _ \<Rightarrow> fsys)"

definition fs :: "env \<Rightarrow> fs_call \<Rightarrow> state \<Rightarrow> bool \<times> state" where
  "fs env c s =
     (if fs_fails env (trace s) c then (False, log (Fs c) s)
      else (True, log (Fs c) (s\<lparr>files := fs_effect c (files s)\<rparr>)))"

text \<open>
  \<open>response.iter_content(chunk_size=n)\<close>: the chunks delivered, and whether the body
  was read to its end.
\<close>

fun chunks_of :: "nat \<Rightarrow> string \<Rightarrow> string list" where
  "chunks_of n xs = (if xs = [] \<or> n = 0 then [] else take n xs # chunks_of n (drop n xs))"

definition iter_content :: "response \<Rightarrow> nat \<Rightarrow> string list \<times> bool" where
  "iter_content r n =
     (case stream_breaks r of
        None \<Rightarrow> (chunks_of n (resp_content r), True)
      | Some k \<Rightarrow> (take k (chunks_of n (resp_content r)), False))"

text \<open>
  The loop \<open>for chunk in ...: f.write(chunk)\<close>: it stops at the first write that raises.
\<close>

fun write_chunks :: "env \<Rightarrow> string \<Rightarrow> string list \<Rightarrow> state \<Rightarrow> bool \<times> state" where
  "write_chunks env filepath [] s = (True, s)"
| "write_chunks env filepath (c # cs) s =
     (case fs env (Write filepath c) s of
        (False, s1) \<Rightarrow> (False, s1)
      | (True, s1) \<Rightarrow> write_chunks env filepath cs s1)"

text \<open>
  \<open>with open(filepath, 'wb') as f: for chunk in response.iter_content(8192):
  f.write(chunk)\<close>, then \<open>os.path.getsize(filepath)\<close>: \<open>True\<close> when nothing raised.
\<close>

definition save_body :: "env \<Rightarrow> response \<Rightarrow> string \<Rightarrow> state \<Rightarrow> bool \<times> state" where
  "save_body env r filepath s =
     (case fs env (Open_wb filepath) s of
        (False, s1) \<Rightarrow> (False, s1)
      | (True, s1) \<Rightarrow>
          (case iter_content r 8192 of
             (chunks, complete) \<Rightarrow>
               (case write_chunks env filepath chunks s1 of
                  (False, s2) \<Rightarrow> (False, s2)
                | (True, s2) \<Rightarrow>
                    if complete then fs env (Getsize filepath) s2 else (False, s2))))"

section \<open>The URL pattern of the raw-text pass\<close>

text \<open>
  Both crawlers scan \<open>str(soup)\<close> with
  \<^verbatim>\<open>re.findall(r'https?://[^\s<>"\'{}|\\^`\[\]]+\.(zip|pdf|...)', page_text, re.IGNORECASE)\<close>.
  The pattern has one capturing group, so \<open>re.findall\<close> returns, for each match, the
  text of that group. The matcher below follows the backtracking search of \<open>re\<close>:
  the character class takes the longest run it can and gives characters back one at a
  time until a dot and an extension follow; the alternatives are tried in order
  (\<open>xlsx?\<close> is \<open>xlsx\<close> before \<open>xls\<close>); the scan goes on after the end of a match.
\<close>

definition re_space :: "char \<Rightarrow> bool" where
  "re_space c = ((9 \<le> ord c \<and> ord c \<le> 13) \<or> (28 \<le> ord c \<and> ord c \<le> 32) \<or> ord c = 133 \<or> ord c = 160)"

text \<open>The class \<^verbatim>\<open>[^\s<>"'{}|\\^`\[\]]\<close>.\<close>

definition url_char :: "char \<Rightarrow> bool" where
  "url_char c =
     (\<not> re_space c \<and>
      ord c \<notin> {60, 62, 34, 39, 123, 125, 124, 92, 94, 96, 91, 93})"

text \<open>A literal of lower-case letters, matched with \<open>re.IGNORECASE\<close> at the head of \<open>s\<close>.\<close>

definition ci_prefix :: "string \<Rightarrow> string \<Rightarrow> bool" where
  "ci_prefix p s = (length p \<le> length s \<and> lower (take (length p) s) = p)"

fun match_alt :: "string list \<Rightarrow> string \<Rightarrow> string option" where
  "match_alt [] s = None"
| "match_alt (a # as) s = (if ci_prefix a s then Some (take (length a) s) else match_alt as s)"

text \<open>
  \<open>backtrack alts body k\<close>: the class has matched the first \<open>k\<close> characters of \<open>body\<close>
  (at least one). The result is the group and the number of characters of \<open>body\<close> the
  match covers.
\<close>

fun backtrack :: "string list \<Rightarrow> string \<Rightarrow> nat \<Rightarrow> (string \<times> nat) option" where
  "backtrack alts body 0 = None"
| "backtrack alts body (Suc k) =
     (if prefix ''.'' (drop (Suc k) body) then
        (case match_alt alts (drop (Suc (Suc k)) body) of
           Some g \<Rightarrow> Some (g, Suc (Suc k) + length g)
         | None \<Rightarrow> backtrack alts body k)
      else backtrack alts body k)"

definition match_here :: "string list \<Rightarrow> string \<Rightarrow> (string \<times> nat) option" where
  "match_here alts s =
     (if ci_prefix ''http'' s then
        (let n = (if ci_prefix ''s'' (drop 4 s) then 5 else 4) in
         if prefix ''://'' (drop n s) then
           (let body = drop (n + 3) s in
            case backtrack alts body (length (takeWhile url_char body)) of
              None \<Rightarrow> None
            | Some (g, m) \<Rightarrow> Some (g, n + 3 + m))
         else None)
      else None)"

fun findall_from :: "string list \<Rightarrow> nat \<Rightarrow> string \<Rightarrow> string list" where
  "findall_from alts skip [] = []"
| "findall_from alts skip (c # cs) =
     (if 0 < skip then findall_from alts (skip - 1) cs
      else (case match_here alts (c # cs) of
              None \<Rightarrow> findall_from alts 0 cs
            | Some (g, n) \<Rightarrow> g # findall_from alts (n - 1) cs))"

definition re_findall :: "string list \<Rightarrow> string \<Rightarrow> string list" where
  "re_findall alts page_text = findall_from alts 0 page_text"

section \<open>\<open>crawl_cms_hcpcs.py\<close>\<close>

definition cms_START_URL :: string where
  "cms_START_URL =
     ''https://www.cms.gov/medicare/coding-billing/healthcare-common-procedure-system/alpha-numeric''"

definition cms_DOWNLOAD_DIR :: string where
  "cms_DOWNLOAD_DIR = ''cms.gov''"

definition cms_DOWNLOAD_EXTENSIONS :: "string list" where
  "cms_DOWNLOAD_EXTENSIONS =
     [''.zip'', ''.pdf'', ''.txt'', ''.csv'', ''.xlsx'', ''.xls'', ''.docx'', ''.doc'', ''.xml'']"

definition cms_keywords :: "string list" where
  "cms_keywords = [''hcpcs'', ''alpha-numeric'', ''coding'']"

definition cms_pattern_extensions :: "string list" where
  "cms_pattern_extensions =
     [''zip'', ''pdf'', ''txt'', ''csv'', ''xlsx'', ''xls'', ''docx'', ''doc'', ''xml'']"

text \<open>\<open>any(path.endswith(ext) for ext in DOWNLOAD_EXTENSIONS)\<close> and \<open>any(keyword in path for ...)\<close>.\<close>

definition has_extension :: "string list \<Rightarrow> string \<Rightarrow> bool" where
  "has_extension exts p = list_ex (endswith p) exts"

definition has_keyword :: "string list \<Rightarrow> string \<Rightarrow> bool" where
  "has_keyword kws p = list_ex (contains p) kws"

text \<open>
  \<open>get_page(url, retries=3)\<close>: \<open>attempt\<close> runs through \<open>range(retries)\<close>. Every exception
  is caught; between two attempts the function sleeps 2 seconds.
\<close>

function cms_get_page_from :: "env \<Rightarrow> string \<Rightarrow> nat \<Rightarrow> nat \<Rightarrow> state \<Rightarrow> response option \<times> state" where
  "cms_get_page_from env url retries attempt s =
     (if attempt < retries then
        (case send_checked env (GET url 30 False) s of
           (Some response, s1) \<Rightarrow> (Some response, s1)
         | (None, s1) \<Rightarrow>
             if attempt + 1 < retries
             then cms_get_page_from env url retries (attempt + 1) (sleep 2000 s1)
             else (None, s1))
      else (None, s))"
  by pat_completeness auto
termination
  by (relation "measure (\<lambda>(env, url, retries, attempt, s). retries - attempt)") auto

definition cms_get_page :: "env \<Rightarrow> string \<Rightarrow> nat \<Rightarrow> state \<Rightarrow> response option \<times> state" where
  "cms_get_page env url retries s = cms_get_page_from env url retries 0 (log (Call_get_page url) s)"

text \<open>
  One turn of the loop over the \<open><a href>\<close> tags in \<open>find_downloadable_links\<close>: the two
  tests are two separate \<open>if\<close> statements.
\<close>

definition cms_anchor_links :: "env \<Rightarrow> string \<Rightarrow> state \<Rightarrow> string \<Rightarrow> string list" where
  "cms_anchor_links env base_url s href =
     (let full_url = urljoin env base_url href;
          p = lower (path (urlparse env full_url))
      in (if has_extension cms_DOWNLOAD_EXTENSIONS p then [full_url] else []) @
         (if has_keyword cms_keywords p \<and> full_url \<notin> VISITED_URLS s then [full_url] else []))"

text \<open>
  The raw-text pass: \<open>match\<close> is a \<open>str\<close> (never a tuple: the pattern has one group), and
  it is kept when it starts with \<open>http\<close>.
\<close>

definition text_links :: "string list \<Rightarrow> soup \<Rightarrow> string list" where
  "text_links alts sp = filter (\<lambda>url. startswith url ''http'') (re_findall alts (soup_str sp))"

text \<open>
  \<open>list(set(links))\<close>: the links without duplicates. Python fixes no order for them;
  the model keeps the order of first occurrence.
\<close>

definition cms_find_downloadable_links :: "env \<Rightarrow> soup \<Rightarrow> string \<Rightarrow> state \<Rightarrow> string list" where
  "cms_find_downloadable_links env sp base_url s =
     remdups (concat (map (cms_anchor_links env base_url s) (a_hrefs sp)) @
              text_links cms_pattern_extensions sp)"

definition cms_download_file :: "env \<Rightarrow> string \<Rightarrow> string \<Rightarrow> state \<Rightarrow> bool \<times> state" where
  "cms_download_file env url filepath s =
     (if url \<in> DOWNLOADED_FILES s then (False, s)
      else
        (case send_checked env (GET url 60 True) s of
           (None, s1) \<Rightarrow> (False, s1)
         | (Some response, s1) \<Rightarrow>
             (case fs env (Makedirs (dirname filepath)) s1 of
                (False, s2) \<Rightarrow> (False, s2)
              | (True, s2) \<Rightarrow>
                  (case save_body env response filepath s2 of
                     (False, s3) \<Rightarrow> (False, s3)
                   | (True, s3) \<Rightarrow>
                       (True, s3\<lparr>DOWNLOADED_FILES := insert url (DOWNLOADED_FILES s3)\<rparr>)))))"

text \<open>The substitution \<^verbatim>\<open>re.sub(r'[^\w\.-]', '_', filename)\<close>.\<close>

definition clean_char :: "char \<Rightarrow> char" where
  "clean_char c = (if re_word c \<or> c = CHR ''.'' \<or> c = CHR ''-'' then c else CHR ''_'')"

definition clean :: "string \<Rightarrow> string" where
  "clean filename = map clean_char filename"

definition cms_get_filename_from_url :: "env \<Rightarrow> string \<Rightarrow> string \<Rightarrow> string" where
  "cms_get_filename_from_url env url dflt =
     (let parsed = urlparse env url;
          filename = basename (path parsed);
          filename =
            (if filename = [] \<or> CHR ''.'' \<notin> set filename
             then (if contains (lower (query parsed)) ''file''
                   then last (split (query parsed) ''='') else dflt)
             else filename)
      in clean filename)"

text \<open>The test of \<open>crawl_page\<close> for a URL that is a file itself.\<close>

definition cms_is_file :: "env \<Rightarrow> string \<Rightarrow> response \<Rightarrow> bool" where
  "cms_is_file env url response =
     (has_extension cms_DOWNLOAD_EXTENSIONS (lower (path (urlparse env url))) \<or>
      contains (content_type_lower response) ''application/'' \<or>
      contains (content_type_lower response) ''pdf'')"

text \<open>One turn of the first loop of \<open>crawl_page\<close> ("Process direct file links").\<close>

definition cms_process_link :: "env \<Rightarrow> string \<Rightarrow> state \<Rightarrow> state" where
  "cms_process_link env link s =
     (let parsed_link = urlparse env link in
      if has_extension cms_DOWNLOAD_EXTENSIONS (lower (path parsed_link)) then
        (let filename = cms_get_filename_from_url env link ''file'';
             url_path = strip_slash (path parsed_link);
             subdir = (if url_path \<noteq> []
                       then join cms_DOWNLOAD_DIR (butlast (split url_path ''/''))
                       else cms_DOWNLOAD_DIR);
             filepath = join2 subdir filename
         in sleep 500 (snd (cms_download_file env link filepath s)))
      else s)"

function cms_crawl_page :: "env \<Rightarrow> string \<Rightarrow> nat \<Rightarrow> nat \<Rightarrow> state \<Rightarrow> state" where
  "cms_crawl_page env url depth max_depth s =
     (if max_depth < depth then s
      else if url \<in> VISITED_URLS s then s
      else
        (case cms_get_page env url 3 (s\<lparr>VISITED_URLS := insert url (VISITED_URLS s)\<rparr>) of
           (None, s1) \<Rightarrow> s1
         | (Some response, s1) \<Rightarrow>
             if cms_is_file env url response then
               (let filename = cms_get_filename_from_url env url
                                 (''file_'' @ str (card (DOWNLOADED_FILES s1)));
                    filepath = join2 cms_DOWNLOAD_DIR filename
                in snd (cms_download_file env url filepath s1))
             else
               (case BeautifulSoup env (resp_content response) of
                  None \<Rightarrow> s1
                | Some sp \<Rightarrow>
                    (let links = cms_find_downloadable_links env sp url s1;
                         s2 = fold (cms_process_link env) links s1
                     in fold (\<lambda>link st.
                                if link \<notin> VISITED_URLS st \<and>
                                   contains (netloc (urlparse env link)) ''cms.gov''
                                then sleep 1000 (cms_crawl_page env link (depth + 1) max_depth st)
                                else st)
                          links s2))))"
  by pat_completeness auto
termination
  by (relation "measure (\<lambda>(env, url, depth, max_depth, s). Suc max_depth - depth)") auto

text \<open>
  \<open>main\<close>: \<open>create_download_dir()\<close> (an exception there ends the run), then
  \<open>crawl_page(START_URL, depth=0, max_depth=3)\<close> on the empty sets.
\<close>

definition cms_main :: "env \<Rightarrow> state" where
  "cms_main env =
     (case fs env (Makedirs cms_DOWNLOAD_DIR) init_state of
        (False, s) \<Rightarrow> s
      | (True, s) \<Rightarrow> cms_crawl_page env cms_START_URL 0 3 s)"

section \<open>\<open>download_loinc.py\<close>\<close>

text \<open>
  Exceptions that no \<open>except\<close> clause of the called function catches: they leave the
  function and travel up to the caller.
\<close>

datatype error = IndexError | ParseError | RequestException | OSError

definition loinc_BASE_URL :: string where
  "loinc_BASE_URL = ''https://loinc.org''"

definition loinc_LOGIN_URL :: string where
  "loinc_LOGIN_URL = ''https://loinc.org/wp-login.php''"

definition loinc_DOWNLOAD_PAGE_URL :: string where
  "loinc_DOWNLOAD_PAGE_URL = ''https://loinc.org/file-access/download-id/470626/''"

definition loinc_COMPLETE_DOWNLOAD_URL :: string where
  "loinc_COMPLETE_DOWNLOAD_URL = ''https://loinc.org/download/loinc-complete/''"

definition loinc_DOWNLOAD_DIR :: string where
  "loinc_DOWNLOAD_DIR = ''loinc''"

definition loinc_DOWNLOAD_EXTENSIONS :: "string list" where
  "loinc_DOWNLOAD_EXTENSIONS =
     [''.zip'', ''.pdf'', ''.txt'', ''.csv'', ''.xlsx'', ''.xls'', ''.docx'', ''.doc'', ''.xml'',
      ''.db'', ''.sqlite'', ''.owl'', ''.rdf'']"

definition loinc_keywords :: "string list" where
  "loinc_keywords = [''download'', ''file'', ''loinc'', ''complete'']"

definition loinc_pattern_extensions :: "string list" where
  "loinc_pattern_extensions =
     [''zip'', ''pdf'', ''txt'', ''csv'', ''xlsx'', ''xls'', ''docx'', ''doc'', ''xml'',
      ''db'', ''sqlite'', ''owl'', ''rdf'']"

definition USERNAME :: string where
  "USERNAME = ''cze''"

text \<open>\<open>d[k] = v\<close> on a dictionary kept in insertion order.\<close>

fun dict_set :: "string \<Rightarrow> string \<Rightarrow> (string \<times> string) list \<Rightarrow> (string \<times> string) list" where
  "dict_set k v [] = [(k, v)]"
| "dict_set k v (p # ps) = (if fst p = k then (k, v) # ps else p # dict_set k v ps)"

text \<open>\<open>soup.find('form', {'id': 'loginform'}) or soup.find('form')\<close>.\<close>

definition find_login_form :: "soup \<Rightarrow> form option" where
  "find_login_form sp =
     (case filter (\<lambda>f. attr (form_tag f) ''id'' = Some ''loginform'') (forms sp) of
        f # _ \<Rightarrow> Some f
      | [] \<Rightarrow> (case forms sp of f # _ \<Rightarrow> Some f | [] \<Rightarrow> None))"

text \<open>The loop over \<open>form.find_all('input', type='hidden')\<close>.\<close>

definition add_hidden :: "tag \<Rightarrow> (string \<times> string) list \<Rightarrow> (string \<times> string) list" where
  "add_hidden hidden login_data =
     (case attr hidden ''name'' of
        None \<Rightarrow> login_data
      | Some name \<Rightarrow> if name \<noteq> [] then dict_set name (attr_or hidden ''value'' []) login_data
                     else login_data)"

definition hidden_inputs :: "form \<Rightarrow> tag list" where
  "hidden_inputs f =
     filter (\<lambda>t. tag_name t = ''input'' \<and> attr t ''type'' = Some ''hidden'') (form_fields f)"

text \<open>
  The success test of \<open>login\<close> on the response to the POST. The password is the
  module constant \<open>PASSWORD\<close>; it is an argument here.
\<close>

definition loinc_login_check :: "response \<Rightarrow> bool" where
  "loinc_login_check response =
     (contains (resp_url response) ''wp-admin'' \<or>
      contains (resp_url response) ''file-access'' \<or>
      contains (lower (resp_text response)) (lower USERNAME))"

definition loinc_login :: "env \<Rightarrow> string \<Rightarrow> state \<Rightarrow> bool \<times> state" where
  "loinc_login env password s =
     (case send_checked env (GET loinc_LOGIN_URL 30 False) s of
        (None, s1) \<Rightarrow> (False, s1)
      | (Some login_page, s1) \<Rightarrow>
          (case BeautifulSoup env (resp_content login_page) of
             None \<Rightarrow> (False, s1)
           | Some sp \<Rightarrow>
               (case find_login_form sp of
                  None \<Rightarrow> (False, s1)
                | Some f \<Rightarrow>
                    (let login_data =
                           fold add_hidden (hidden_inputs f)
                             [(''log'', USERNAME), (''pwd'', password), (''wp-submit'', ''Log In''),
                              (''redirect_to'', loinc_DOWNLOAD_PAGE_URL), (''testcookie'', ''1'')]
                     in case send env (POST loinc_LOGIN_URL login_data 30) s1 of
                          (None, s2) \<Rightarrow> (False, s2)
                        | (Some response, s2) \<Rightarrow>
                            if loinc_login_check response then (True, s2)
                            else
                              (case fs env (Open_wb ''login_response.html'') s2 of
                                 (False, s3) \<Rightarrow> (False, s3)
                               | (True, s3) \<Rightarrow>
                                   (False, snd (fs env (Write ''login_response.html''
                                                         (resp_content response)) s3)))))))"

text \<open>
  \<open>get_page(session, url, retries=3)\<close>: a \<open>RequestException\<close> is caught; between two
  attempts the function sleeps \<open>2 ** attempt\<close> seconds.
\<close>

function loinc_get_page_from :: "env \<Rightarrow> string \<Rightarrow> nat \<Rightarrow> nat \<Rightarrow> state \<Rightarrow> response option \<times> state" where
  "loinc_get_page_from env url retries attempt s =
     (if attempt < retries then
        (case send_checked env (GET url 60 False) s of
           (Some response, s1) \<Rightarrow> (Some response, s1)
         | (None, s1) \<Rightarrow>
             if attempt + 1 < retries
             then loinc_get_page_from env url retries (attempt + 1) (sleep (2 ^ attempt * 1000) s1)
             else (None, s1))
      else (None, s))"
  by pat_completeness auto
termination
  by (relation "measure (\<lambda>(env, url, retries, attempt, s). retries - attempt)") auto

definition loinc_get_page :: "env \<Rightarrow> string \<Rightarrow> nat \<Rightarrow> state \<Rightarrow> response option \<times> state" where
  "loinc_get_page env url retries s =
     loinc_get_page_from env url retries 0 (log (Call_get_page url) s)"

definition loinc_anchor_links :: "env \<Rightarrow> string \<Rightarrow> state \<Rightarrow> string \<Rightarrow> string list" where
  "loinc_anchor_links env base_url s href =
     (if href = [] then []
      else
        (let full_url = urljoin env base_url href;
             p = lower (path (urlparse env full_url))
         in (if has_extension loinc_DOWNLOAD_EXTENSIONS p then [full_url] else []) @
            (if has_keyword loinc_keywords (lower p) \<and> full_url \<notin> VISITED_URLS s
             then [full_url] else [])))"

text \<open>The loop over \<open>soup.find_all('form')\<close>.\<close>

definition loinc_form_links :: "env \<Rightarrow> string \<Rightarrow> form \<Rightarrow> string list" where
  "loinc_form_links env base_url f =
     (let action = attr_or (form_tag f) ''action'' [] in
      if action \<noteq> [] \<and> contains (lower (urljoin env base_url action)) ''download''
      then [urljoin env base_url action] else [])"

definition loinc_find_downloadable_links :: "env \<Rightarrow> soup \<Rightarrow> string \<Rightarrow> state \<Rightarrow> string list" where
  "loinc_find_downloadable_links env sp base_url s =
     remdups (concat (map (loinc_anchor_links env base_url s) (a_hrefs sp)) @
              text_links loinc_pattern_extensions sp @
              concat (map (loinc_form_links env base_url) (forms sp)))"

text \<open>
  \<open>download_file(session, url, filepath)\<close>. \<open>response.content\<close> is read only when the
  content type holds \<open>text/html\<close> (\<open>and\<close> evaluates its right side on demand); reading
  it raises when the stream breaks. Once it is read, \<open>iter_content\<close> serves the chunks
  from it.
\<close>

definition loinc_download_file :: "env \<Rightarrow> string \<Rightarrow> string \<Rightarrow> state \<Rightarrow> bool \<times> state" where
  "loinc_download_file env url filepath s =
     (if url \<in> DOWNLOADED_FILES s then (False, s)
      else
        (case send_checked env (GET url 300 True) s of
           (None, s1) \<Rightarrow> (False, s1)
         | (Some response, s1) \<Rightarrow>
             if contains (content_type_lower response) ''text/html'' \<and> stream_breaks response \<noteq> None
             then (False, s1)
             else if contains (content_type_lower response) ''text/html'' \<and>
                     length (resp_content response) < 10000
             then (False, s1)
             else
               (case fs env (Makedirs (dirname filepath)) s1 of
                  (False, s2) \<Rightarrow> (False, s2)
                | (True, s2) \<Rightarrow>
                    (case save_body env response filepath s2 of
                       (False, s3) \<Rightarrow> (False, s3)
                     | (True, s3) \<Rightarrow>
                         (True, s3\<lparr>DOWNLOADED_FILES := insert url (DOWNLOADED_FILES s3)\<rparr>)))))"

text \<open>
  \<open>get_filename_from_url(url, default)\<close>: \<open>query_params.split('file=')[1]\<close> raises
  \<open>IndexError\<close> when the query holds \<open>file\<close> but not \<open>file=\<close>.
\<close>

definition loinc_get_filename_from_url :: "env \<Rightarrow> string \<Rightarrow> string \<Rightarrow> error + string" where
  "loinc_get_filename_from_url env url dflt =
     (let parsed = urlparse env url;
          filename = basename (path parsed);
          found =
            (if filename = [] \<or> filename = ''/''
             then (if contains (query parsed) ''file''
                   then (case split (query parsed) ''file='' of
                           _ # piece # _ \<Rightarrow> Inr (hd (split piece ''&''))
                         | _ \<Rightarrow> Inl IndexError)
                   else Inr dflt)
             else Inr filename)
      in case found of
           Inl e \<Rightarrow> Inl e
         | Inr filename \<Rightarrow> Inr (if clean filename = [] then dflt else clean filename))"

text \<open>The form data that \<open>accept_terms_and_download\<close> collects from the tags of the form.\<close>

definition is_truthy :: "string option \<Rightarrow> bool" where
  "is_truthy v = (case v of None \<Rightarrow> False | Some x \<Rightarrow> x \<noteq> [])"

definition add_input :: "tag \<Rightarrow> (string \<times> string) list \<Rightarrow> (string \<times> string) list" where
  "add_input input_tag form_data =
     (if tag_name input_tag \<notin> {''input'', ''select'', ''textarea''} then form_data
      else
        (case attr input_tag ''name'' of
           None \<Rightarrow> form_data
         | Some name \<Rightarrow>
             if name = [] then form_data
             else
               (let input_type = lower (attr_or input_tag ''type'' []) in
                if input_type = ''checkbox'' then
                  (if contains (lower name) ''tc'' \<or> contains (lower name) ''terms'' \<or>
                      contains (lower name) ''accept''
                   then dict_set name ''1'' form_data
                   else if is_truthy (attr input_tag ''checked'')
                   then dict_set name (attr_or input_tag ''value'' ''1'') form_data
                   else form_data)
                else if input_type = ''radio'' then
                  (if is_truthy (attr input_tag ''checked'')
                   then dict_set name (attr_or input_tag ''value'' []) form_data
                   else form_data)
                else if input_type = ''submit'' then
                  (if contains (lower (attr_or input_tag ''value'' [])) ''download'' \<or>
                      contains (lower (attr_or input_tag ''value'' [])) ''submit''
                   then dict_set name (attr_or input_tag ''value'' []) form_data
                   else form_data)
                else
                  (if attr_or input_tag ''value'' [] \<noteq> []
                   then dict_set name (attr_or input_tag ''value'' []) form_data
                   else form_data))))"

text \<open>\<open>form.find('button', type='submit') or form.find('input', type='submit')\<close>.\<close>

definition find_submit :: "form \<Rightarrow> tag option" where
  "find_submit f =
     (case filter (\<lambda>t. tag_name t = ''button'' \<and> attr t ''type'' = Some ''submit'') (form_fields f) of
        t # _ \<Rightarrow> Some t
      | [] \<Rightarrow>
          (case filter (\<lambda>t. tag_name t = ''input'' \<and> attr t ''type'' = Some ''submit'') (form_fields f) of
             t # _ \<Rightarrow> Some t
           | [] \<Rightarrow> None))"

definition terms_form_data :: "form \<Rightarrow> (string \<times> string) list" where
  "terms_form_data f =
     (let form_data = fold add_input (form_fields f) [] in
      if list_ex (\<lambda>k. contains (lower k) ''submit'' \<or> contains (lower k) ''download'')
           (map fst form_data)
      then form_data
      else
        (case find_submit f of
           None \<Rightarrow> form_data
         | Some submit_btn \<Rightarrow>
             (case attr submit_btn ''name'' of
                None \<Rightarrow> form_data
              | Some name \<Rightarrow>
                  if name \<noteq> [] then dict_set name (attr_or submit_btn ''value'' ''Submit'') form_data
                  else form_data)))"

text \<open>
  \<open>accept_terms_and_download(session, page_url)\<close>: it fetches \<open>page_url\<close> with
  \<open>get_page\<close> itself. The first \<open>BeautifulSoup\<close> call stands outside the \<open>try\<close>.
\<close>

definition accept_terms_and_download :: "env \<Rightarrow> string \<Rightarrow> state \<Rightarrow> (error + string list) \<times> state" where
  "accept_terms_and_download env page_url s =
     (case loinc_get_page env page_url 3 s of
        (None, s1) \<Rightarrow> (Inr [], s1)
      | (Some response, s1) \<Rightarrow>
          (case BeautifulSoup env (resp_content response) of
             None \<Rightarrow> (Inl ParseError, s1)
           | Some sp \<Rightarrow>
               (case forms sp of
                  [] \<Rightarrow> (Inr [], s1)
                | f # _ \<Rightarrow>
                    (let form_action = attr_or (form_tag f) ''action'' [];
                         submit_url = (if form_action \<noteq> [] then urljoin env page_url form_action
                                       else page_url)
                     in case send env (POST submit_url (terms_form_data f) 60) s1 of
                          (None, s2) \<Rightarrow> (Inr [], s2)
                        | (Some response2, s2) \<Rightarrow>
                            (case BeautifulSoup env (resp_content response2) of
                               None \<Rightarrow> (Inr [], s2)
                             | Some sp2 \<Rightarrow>
                                 (Inr (loinc_find_downloadable_links env sp2 loinc_BASE_URL s2), s2))))))"

text \<open>
  The loops \<open>for link in links\<close> of \<open>crawl_download_page\<close>; an exception of
  \<open>get_filename_from_url\<close> ends them.
\<close>

fun loinc_process_links :: "env \<Rightarrow> string list \<Rightarrow> state \<Rightarrow> (error + unit) \<times> state" where
  "loinc_process_links env [] s = (Inr (), s)"
| "loinc_process_links env (link # links) s =
     (if has_extension loinc_DOWNLOAD_EXTENSIONS (lower (path (urlparse env link))) then
        (case loinc_get_filename_from_url env link ''file'' of
           Inl e \<Rightarrow> (Inl e, s)
         | Inr filename \<Rightarrow>
             loinc_process_links env links
               (sleep 1000 (snd (loinc_download_file env link (join2 loinc_DOWNLOAD_DIR filename) s))))
      else loinc_process_links env links s)"

definition loinc_is_file :: "env \<Rightarrow> string \<Rightarrow> response \<Rightarrow> bool" where
  "loinc_is_file env url response =
     (has_extension loinc_DOWNLOAD_EXTENSIONS (lower (path (urlparse env url))) \<or>
      contains (content_type_lower response) ''application/'' \<or>
      contains (content_type_lower response) ''pdf'' \<or>
      contains (content_type_lower response) ''zip'' \<or>
      contains (content_type_lower response) ''octet-stream'')"

definition crawl_download_page :: "env \<Rightarrow> string \<Rightarrow> state \<Rightarrow> (error + unit) \<times> state" where
  "crawl_download_page env url s =
     (if url \<in> VISITED_URLS s then (Inr (), s)
      else
        (case loinc_get_page env url 3 (s\<lparr>VISITED_URLS := insert url (VISITED_URLS s)\<rparr>) of
           (None, s1) \<Rightarrow> (Inr (), s1)
         | (Some response, s1) \<Rightarrow>
             if loinc_is_file env url response then
               (case loinc_get_filename_from_url env url
                       (''file_'' @ str (card (DOWNLOADED_FILES s1))) of
                  Inl e \<Rightarrow> (Inl e, s1)
                | Inr filename \<Rightarrow>
                    (Inr (), snd (loinc_download_file env url (join2 loinc_DOWNLOAD_DIR filename) s1)))
             else
               (case BeautifulSoup env (resp_content response) of
                  None \<Rightarrow> (Inr (), s1)
                | Some sp \<Rightarrow>
                    (case loinc_process_links env (loinc_find_downloadable_links env sp url s1) s1 of
                       (Inl e, s2) \<Rightarrow> (Inl e, s2)
                     | (Inr _, s2) \<Rightarrow>
                         if contains url ''file-access'' \<or> contains (lower url) ''download'' then
                           (case accept_terms_and_download env url s2 of
                              (Inl e, s3) \<Rightarrow> (Inl e, s3)
                            | (Inr form_links, s3) \<Rightarrow> loinc_process_links env form_links s3)
                         else (Inr (), s2)))))"

text \<open>
  \<open>main\<close>: the login (its result only changes a message), two crawls whose exceptions
  end the run, and the loop over \<open>additional_urls\<close>, which catches them.
\<close>

definition loinc_additional_urls :: "string list" where
  "loinc_additional_urls =
     [''https://loinc.org/download/'', ''https://loinc.org/download/loinc-complete/'',
      ''https://loinc.org/downloads/'']"

definition loinc_try_crawl :: "env \<Rightarrow> string \<Rightarrow> state \<Rightarrow> state" where
  "loinc_try_crawl env url s =
     (case crawl_download_page env url s of
        (Inl e, s1) \<Rightarrow> s1
      | (Inr _, s1) \<Rightarrow> sleep 1000 s1)"

definition loinc_main :: "env \<Rightarrow> string \<Rightarrow> (error + unit) \<times> state" where
  "loinc_main env password =
     (case fs env (Makedirs loinc_DOWNLOAD_DIR) init_state of
        (False, s) \<Rightarrow> (Inl OSError, s)
      | (True, s) \<Rightarrow>
          (let s1 = sleep 2000 (snd (loinc_login env password s)) in
           case crawl_download_page env loinc_DOWNLOAD_PAGE_URL s1 of
             (Inl e, s2) \<Rightarrow> (Inl e, s2)
           | (Inr _, s2) \<Rightarrow>
               (case crawl_download_page env loinc_COMPLETE_DOWNLOAD_URL s2 of
                  (Inl e, s3) \<Rightarrow> (Inl e, s3)
                | (Inr _, s3) \<Rightarrow> (Inr (), fold (loinc_try_crawl env) loinc_additional_urls s3))))"

section \<open>\<open>download_all_loinc.py\<close>\<close>

datatype login_report = No_login_form | Login_successful | Login_may_have_failed

text \<open>
  \<open>login_and_get_session()\<close>: nothing is caught. It returns \<open>None\<close> without a form and
  the session otherwise, after printing that the login was successful or that it may have
  failed; the report is that message.
\<close>

definition all_loinc_login_check :: "response \<Rightarrow> bool" where
  "all_loinc_login_check response =
     (contains (lower (resp_text response)) (lower USERNAME) \<or>
      contains (resp_url response) ''downloads'')"

definition login_and_get_session :: "env \<Rightarrow> string \<Rightarrow> state \<Rightarrow> (error + login_report) \<times> state" where
  "login_and_get_session env password s =
     (case send env (GET loinc_LOGIN_URL 30 False) s of
        (None, s1) \<Rightarrow> (Inl RequestException, s1)
      | (Some response, s1) \<Rightarrow>
          (case BeautifulSoup env (resp_content response) of
             None \<Rightarrow> (Inl ParseError, s1)
           | Some sp \<Rightarrow>
               (case find_login_form sp of
                  None \<Rightarrow> (Inr No_login_form, s1)
                | Some f \<Rightarrow>
                    (let login_data =
                           fold add_hidden (hidden_inputs f)
                             [(''log'', USERNAME), (''pwd'', password), (''wp-submit'', ''Log In''),
                              (''redirect_to'', ''https://loinc.org/downloads/''),
                              (''testcookie'', ''1'')]
                     in case send env (POST loinc_LOGIN_URL login_data 30) s1 of
                          (None, s2) \<Rightarrow> (Inl RequestException, s2)
                        | (Some response2, s2) \<Rightarrow>
                            (Inr (if all_loinc_login_check response2 then Login_successful
                                  else Login_may_have_failed), s2)))))"

text \<open>
  \<open>download_file(session, url, filename=None)\<close>: the guard is \<open>os.path.exists\<close> on the
  target; the script keeps no set of downloaded URLs.
\<close>

definition all_loinc_download_file :: "env \<Rightarrow> string \<Rightarrow> string option \<Rightarrow> state \<Rightarrow> bool \<times> state" where
  "all_loinc_download_file env url filename_arg s =
     (let filename =
            (case filename_arg of
               Some f \<Rightarrow> f
             | None \<Rightarrow>
                 (let f = basename (hd (split url ''?'')) in
                  if f = [] \<or> f = ''/'' then ''file_'' @ str (time_now env (trace s)) else f));
          filepath = join2 loinc_DOWNLOAD_DIR filename
      in if files s filepath \<noteq> None then (False, s)
         else
           (case send_checked env (GET url 300 True) s of
              (None, s1) \<Rightarrow> (False, s1)
            | (Some response, s1) \<Rightarrow>
                if contains (content_type_lower response) ''text/html'' \<and>
                   stream_breaks response \<noteq> None
                then (False, s1)
                else if contains (content_type_lower response) ''text/html'' \<and>
                        length (resp_content response) < 50000
                then (False, s1)
                else save_body env response filepath s1))"

section \<open>\<open>download_nlm_genes.py\<close>\<close>





section \<open>Reading a trace\<close>

definition page_fetches :: "event list \<Rightarrow> string list" where
  "page_fetches evs = List.map_filter (\<lambda>e. case e of Call_get_page u \<Rightarrow> Some u | _ \<Rightarrow> None) evs"

definition requests :: "event list \<Rightarrow> request list" where
  "requests evs = List.map_filter (\<lambda>e. case e of Http r \<Rightarrow> Some r | _ \<Rightarrow> None) evs"

text \<open>The URLs requested as files: the \<open>GET\<close> requests with \<open>stream=True\<close>.\<close>

definition file_fetches :: "event list \<Rightarrow> string list" where
  "file_fetches evs =
     List.map_filter (\<lambda>e. case e of Http (GET u t True) \<Rightarrow> Some u | _ \<Rightarrow> None) evs"

definition delays :: "event list \<Rightarrow> nat list" where
  "delays evs = List.map_filter (\<lambda>e. case e of Sleep ms \<Rightarrow> Some ms | _ \<Rightarrow> None) evs"

definition fs_calls :: "event list \<Rightarrow> fs_call list" where
  "fs_calls evs = List.map_filter (\<lambda>e. case e of Fs c \<Rightarrow> Some c | _ \<Rightarrow> None) evs"

text \<open>What a call added to the trace.\<close>

definition events_since :: "state \<Rightarrow> state \<Rightarrow> event list" where
  "events_since s s' = drop (length (trace s)) (trace s')"

section \<open>An environment for the examples\<close>

text \<open>
  \<open>urlparse\<close> and \<open>urljoin\<close> on the URLs of the examples, which have the form
  \<open>scheme://host/path?query\<close> (no parameters, no fragment), and on references that are
  absolute or start with a slash.
\<close>

definition simple_urlparse :: "string \<Rightarrow> parsed" where
  "simple_urlparse u =
     (let rest = dropWhile (\<lambda>c. c \<noteq> CHR '':'') u;
          after = (if prefix ''://'' rest then drop 3 rest else u);
          host = (if prefix ''://'' rest
                  then takeWhile (\<lambda>c. c \<noteq> CHR ''/'' \<and> c \<noteq> CHR ''?'') after else []);
          tail = drop (length host) after
      in \<lparr>netloc = host,
          path = takeWhile (\<lambda>c. c \<noteq> CHR ''?'') tail,
          query = drop 1 (dropWhile (\<lambda>c. c \<noteq> CHR ''?'') tail)\<rparr>)"

definition simple_urljoin :: "string \<Rightarrow> string \<Rightarrow> string" where
  "simple_urljoin base href =
     (if contains href ''://'' then href
      else takeWhile (\<lambda>c. c \<noteq> CHR '':'') base @ ''://'' @ netloc (simple_urlparse base) @ href)"

text \<open>
  The example server: \<open>pages\<close> gives the response to a \<open>GET\<close> without \<open>stream\<close>,
  \<open>downloads\<close> that to a \<open>GET\<close> with \<open>stream=True\<close>, \<open>posts\<close> that to a \<open>POST\<close>, each by
  URL; a URL that is not listed does not answer. \<open>docs\<close> lists the documents by their
  content. The disk never fails.
\<close>

definition example_env ::
  "(string \<times> response) list \<Rightarrow> (string \<times> response) list \<Rightarrow> (string \<times> response) list \<Rightarrow>
   (string \<times> soup) list \<Rightarrow> env" where
  "example_env pages downloads posts docs =
     \<lparr>urlparse = simple_urlparse,
      urljoin = simple_urljoin,
      urlencode = (\<lambda>params. concat (map (\<lambda>(k, v). k @ ''='' @ v @ ''&'') params)),
      BeautifulSoup = map_of docs,
      json_loads = (\<lambda>t. if t = ''null'' then Some JNull else None),
      http = (\<lambda>evs req. case req of
                GET u t stream \<Rightarrow> if stream then map_of downloads u else map_of pages u
              | POST u d t \<Rightarrow> map_of posts u),
      fs_fails = (\<lambda>evs c. False),
      time_now = (\<lambda>evs. 1700000000 + length evs)\<rparr>"

definition ok_response :: "string \<Rightarrow> string \<Rightarrow> string \<Rightarrow> response" where
  "ok_response u ctype body =
     \<lparr>status_code = 200, resp_url = u, content_type = Some ctype, resp_content = body,
      resp_text = body, stream_breaks = None\<rparr>"

definition no_soup :: soup where
  "no_soup = \<lparr>a_hrefs = [], forms = [], soup_str = []\<rparr>"

section \<open>Predicates of the properties\<close>

text \<open>The characters \<open>[A-Za-z0-9._-]\<close>.\<close>

definition spec_char :: "char \<Rightarrow> bool" where
  "spec_char c =
     (ascii_upper c \<or> ascii_lower c \<or> ascii_digit c \<or> c = CHR ''.'' \<or> c = CHR ''_'' \<or> c = CHR ''-'')"

text \<open>The characters that the substitution of \<open>get_filename_from_url\<close> leaves in place.\<close>

definition kept_char :: "char \<Rightarrow> bool" where
  "kept_char c = (spec_char c \<or> latin1_alnum c)"

section \<open>Documents and servers of the examples\<close>

text \<open>A document with no anchor and a URL in a script block.\<close>

definition script_page :: soup where
  "script_page =
     \<lparr>a_hrefs = [], forms = [],
      soup_str = ''<script>var u = '' @ [CHR 0x22] @ ''https://www.cms.gov/files/hcpcs2024.zip'' @
                 [CHR 0x22] @ '';</script>''\<rparr>"

section \<open>Events of a retry loop\<close>

text \<open>
  \<open>failed_rounds req d a k\<close>: \<open>k\<close> attempts that failed and were followed by a sleep,
  the first of them with the attempt number \<open>a\<close>; \<open>d\<close> gives the delay after an attempt.
\<close>

fun failed_rounds :: "request \<Rightarrow> (nat \<Rightarrow> nat) \<Rightarrow> nat \<Rightarrow> nat \<Rightarrow> event list" where
  "failed_rounds req d a 0 = []"
| "failed_rounds req d a (Suc k) = Http req # Sleep (d a) # failed_rounds req d (Suc a) k"

text \<open>
  A seed page with one anchor, to a zip file on the same host. On \<open>seed_env\<close> the
  server answers the page requests and no request for a file; on \<open>seed_env_ok\<close> it
  answers both.
\<close>

definition crawl_seed :: string where
  "crawl_seed = ''https://www.cms.gov/seed''"

definition zip_url :: string where
  "zip_url = ''https://www.cms.gov/files/hcpcs.zip''"

definition seed_env :: env where
  "seed_env =
     example_env
       [(crawl_seed, ok_response crawl_seed ''text/html'' ''seed page''),
        (zip_url, ok_response zip_url ''application/zip'' ''PK'')]
       [] []
       [(''seed page'', no_soup\<lparr>a_hrefs := [zip_url]\<rparr>)]"

definition seed_env_ok :: env where
  "seed_env_ok =
     example_env
       [(crawl_seed, ok_response crawl_seed ''text/html'' ''seed page''),
        (zip_url, ok_response zip_url ''application/zip'' ''PK'')]
       [(zip_url, ok_response zip_url ''application/zip'' ''PK'')]
       []
       [(''seed page'', no_soup\<lparr>a_hrefs := [zip_url]\<rparr>)]"

text \<open>A server that answers a request for a file with a short HTML page (a login page).\<close>

definition login_wall_env :: env where
  "login_wall_env =
     example_env []
       [(zip_url, ok_response zip_url ''text/html; charset=UTF-8'' ''<html>Please log in</html>'')]
       [] []"

text \<open>
  A login page with the form \<open>loginform\<close> and one hidden input. On \<open>login_env\<close> the
  answer to the login POST comes from the front page of the site and does not mention the
  user.
\<close>

definition login_page_soup :: soup where
  "login_page_soup =
     no_soup\<lparr>forms :=
       [\<lparr>form_tag = \<lparr>tag_name = ''form'', attrs = [(''id'', ''loginform'')]\<rparr>,
         form_fields =
           [\<lparr>tag_name = ''input'',
              attrs = [(''type'', ''hidden''), (''name'', ''nonce''), (''value'', ''abc123'')]\<rparr>]\<rparr>]\<rparr>"

definition front_page_response :: response where
  "front_page_response = ok_response ''https://loinc.org/'' ''text/html'' ''<html>Welcome</html>''"

definition login_env :: env where
  "login_env =
     example_env
       [(loinc_LOGIN_URL, ok_response loinc_LOGIN_URL ''text/html'' ''login page'')]
       []
       [(loinc_LOGIN_URL, front_page_response)]
       [(''login page'', login_page_soup)]"

section \<open>The invariant of the page fetches\<close>

text \<open>
  No URL was fetched as a page twice, and every URL fetched as a page is in
  \<open>VISITED_URLS\<close>.
\<close>

definition fetch_inv :: "state \<Rightarrow> bool" where
  "fetch_inv s =
     (distinct (page_fetches (trace s)) \<and> set (page_fetches (trace s)) \<subseteq> VISITED_URLS s)"

text \<open>
  The download page of LOINC as an HTML page without anchors and forms; no other URL
  answers.
\<close>

definition terms_env :: env where
  "terms_env =
     example_env
       [(loinc_DOWNLOAD_PAGE_URL, ok_response loinc_DOWNLOAD_PAGE_URL ''text/html'' ''download page'')]
       [] []
       [(''download page'', no_soup)]"

section \<open>Evaluating the examples\<close>

lemmas str_defs = lower_def char_lower_def ord_def ascii_upper_def ascii_lower_def ascii_digit_def
  latin1_alnum_def isalnum_def re_word_def startswith_def endswith_def split_def strip_slash_def
  basename_def dirname_def join2_def join_def

lemmas example_defs = example_env_def simple_urlparse_def simple_urljoin_def ok_response_def
  no_soup_def

section \<open>Filenames (C9)\<close>

lemma kept_char_iff: "kept_char c = (re_word c \<or> c = CHR ''.'' \<or> c = CHR ''-'')"
  by (auto simp: kept_char_def spec_char_def re_word_def isalnum_def)

lemma latin1_alnum_not_ascii: "latin1_alnum c \<Longrightarrow> 128 \<le> ord c"
  by (auto simp: latin1_alnum_def)

lemma kept_clean_char: "kept_char (clean_char c)"
  by (simp add: clean_char_def kept_char_iff) (simp add: re_word_def)

lemma kept_clean: "list_all kept_char (clean s)"
  by (simp add: clean_def list_all_iff kept_clean_char)

lemma digit_spec: "n < 10 \<Longrightarrow> spec_char (''0123456789'' ! n)"
proof -
  assume "n < 10"
  then have "n \<in> {0, 1, 2, 3, 4, 5, 6, 7, 8, 9}" by auto
  then show ?thesis
    by (auto simp: spec_char_def ascii_digit_def ord_def)
qed

lemma str_spec: "list_all spec_char (str n)"
proof (induction n rule: str.induct)
  case (1 n)
  show ?case
  proof (cases "n < 10")
    case True
    then show ?thesis by (subst str.simps) (simp add: digit_spec)
  next
    case False
    then have "list_all spec_char (str (n div 10))" using 1 by simp
    moreover have "spec_char (''0123456789'' ! (n mod 10))" by (rule digit_spec) simp
    ultimately show ?thesis using False by (subst str.simps) simp
  qed
qed

lemma file_spec: "list_all spec_char ''file_''"
  by (simp add: spec_char_def ascii_lower_def ord_def)

lemma loinc_filename_kept:
  "loinc_get_filename_from_url env url dflt = Inr f \<Longrightarrow> list_all kept_char dflt \<Longrightarrow>
   list_all kept_char f"
  by (auto simp: loinc_get_filename_from_url_def Let_def kept_clean
           split: if_splits list.splits sum.splits)

text \<open>
  C9, as the code has it. The substitution keeps the word characters of \<open>re\<close>, the dot
  and the hyphen, and a word character of a \<open>str\<close> pattern is any alphanumeric code
  point or the underscore. So every character of the filename lies in \<open>[A-Za-z0-9._-]\<close>
  or is an alphanumeric character outside ASCII (\<open>kept_char\<close>). In
  \<open>crawl_cms_hcpcs.py\<close> this holds for every URL and default name. In
  \<open>download_loinc.py\<close> the default name is returned as it is when the cleaned name is
  empty, so it holds when the default name is of that kind, as the two defaults the
  script passes (\<open>file\<close> and \<open>file_<n>\<close>) are.
\<close>

theorem filename_characters:
  "list_all kept_char (cms_get_filename_from_url env url dflt) \<and>
   (list_all kept_char dflt \<longrightarrow>
      (case loinc_get_filename_from_url env url dflt of
         Inl e \<Rightarrow> True
       | Inr f \<Rightarrow> list_all kept_char f)) \<and>
   list_all spec_char (''file_'' @ str n) \<and>
   (\<forall>c. kept_char c \<longrightarrow> spec_char c \<or> (128 \<le> ord c \<and> isalnum c))"
proof -
  have "list_all kept_char (cms_get_filename_from_url env url dflt)"
    by (simp add: cms_get_filename_from_url_def Let_def kept_clean)
  moreover have "list_all kept_char dflt \<longrightarrow>
      (case loinc_get_filename_from_url env url dflt of
         Inl e \<Rightarrow> True
       | Inr f \<Rightarrow> list_all kept_char f)"
    by (auto split: sum.splits dest: loinc_filename_kept)
  moreover have "list_all spec_char (''file_'' @ str n)"
    using file_spec str_spec by simp
  moreover have "\<forall>c. kept_char c \<longrightarrow> spec_char c \<or> (128 \<le> ord c \<and> isalnum c)"
    by (auto simp: kept_char_def isalnum_def dest: latin1_alnum_not_ascii)
  ultimately show ?thesis by blast
qed

theorem filename_characters_witness:
  "list_all kept_char ''file'' \<and>
   cms_get_filename_from_url (example_env [] [] [] [])
     ''https://www.cms.gov/files/hcpcs 2024 (1).zip'' ''file'' = ''hcpcs_2024__1_.zip'' \<and>
   list_all kept_char (cms_get_filename_from_url (example_env [] [] [] [])
     ''https://www.cms.gov/files/hcpcs 2024 (1).zip'' ''file'') \<and>
   loinc_get_filename_from_url (example_env [] [] [] [])
     ''https://www.cms.gov/files/hcpcs 2024 (1).zip'' ''file'' = Inr ''hcpcs_2024__1_.zip'' \<and>
   kept_char CHR ''_'' \<and> spec_char CHR ''_''"
proof -
  have d: "list_all kept_char ''file''"
    by (simp add: kept_char_def spec_char_def ascii_lower_def ord_def)
  have k: "kept_char CHR ''_''"
    by (simp add: kept_char_def spec_char_def)
  have e1: "cms_get_filename_from_url (example_env [] [] [] [])
     ''https://www.cms.gov/files/hcpcs 2024 (1).zip'' ''file'' = ''hcpcs_2024__1_.zip''"
    by (simp add: cms_get_filename_from_url_def clean_def clean_char_def str_defs example_defs)
  have e2: "loinc_get_filename_from_url (example_env [] [] [] [])
     ''https://www.cms.gov/files/hcpcs 2024 (1).zip'' ''file'' = Inr ''hcpcs_2024__1_.zip''"
    by (simp add: loinc_get_filename_from_url_def clean_def clean_char_def str_defs example_defs)
  from filename_characters [of "example_env [] [] [] []"
      "''https://www.cms.gov/files/hcpcs 2024 (1).zip''" "''file''" 0] d k e1 e2
  show ?thesis
    by (simp add: spec_char_def)
qed

text \<open>
  The claim as stated fails on a URL with a letter outside ASCII: the path
  \<open>/files/r\<eacute>sum\<eacute>.pdf\<close> (U+00E9 twice) keeps both letters.
\<close>

theorem filename_characters_counterexample:
  "cms_get_filename_from_url (example_env [] [] [] [])
     (''https://www.cms.gov/files/r'' @ [CHR 0xE9] @ ''sum'' @ [CHR 0xE9] @ ''.pdf'') ''file''
     = ''r'' @ [CHR 0xE9] @ ''sum'' @ [CHR 0xE9] @ ''.pdf'' \<and>
   \<not> list_all spec_char (cms_get_filename_from_url (example_env [] [] [] [])
     (''https://www.cms.gov/files/r'' @ [CHR 0xE9] @ ''sum'' @ [CHR 0xE9] @ ''.pdf'') ''file'')"
  by (simp add: cms_get_filename_from_url_def clean_def clean_char_def spec_char_def str_defs
        example_defs)

section \<open>The raw-text pass (C8)\<close>

lemma match_alt_lower: "match_alt alts s = Some g \<Longrightarrow> lower g \<in> set alts"
  by (induction alts) (auto simp: ci_prefix_def split: if_splits)

lemma backtrack_lower: "backtrack alts body k = Some (g, m) \<Longrightarrow> lower g \<in> set alts"
  by (induction k) (auto split: if_splits option.splits dest: match_alt_lower)

lemma match_here_lower: "match_here alts s = Some (g, m) \<Longrightarrow> lower g \<in> set alts"
  by (auto simp: match_here_def Let_def split: if_splits option.splits dest: backtrack_lower)

lemma findall_from_lower: "g \<in> set (findall_from alts skip s) \<Longrightarrow> lower g \<in> set alts"
proof (induction s arbitrary: skip)
  case Nil
  then show ?case by simp
next
  case (Cons c cs)
  then show ?case
    by (auto split: if_splits option.splits dest: match_here_lower)
qed

lemma lower_http: "lower ''http'' = ''http''"
  by (simp add: lower_def char_lower_def ascii_upper_def ord_def)

lemma startswith_lower: "startswith g ''http'' \<Longrightarrow> startswith (lower g) ''http''"
proof -
  assume "startswith g ''http''"
  then obtain r where "g = ''http'' @ r"
    by (auto simp: startswith_def prefix_def)
  then have "lower g = lower ''http'' @ lower r"
    by (simp add: lower_def)
  then show ?thesis
    by (simp add: lower_http startswith_def)
qed

lemma text_links_empty:
  assumes "\<forall>a \<in> set alts. \<not> startswith a ''http''"
  shows "text_links alts sp = []"
proof -
  have "\<not> startswith g ''http''" if "g \<in> set (re_findall alts (soup_str sp))" for g
  proof
    assume "startswith g ''http''"
    then have "startswith (lower g) ''http''" by (rule startswith_lower)
    moreover have "lower g \<in> set alts"
      using that by (simp add: re_findall_def findall_from_lower)
    ultimately show False using assms by blast
  qed
  then show ?thesis
    by (simp add: text_links_def filter_empty_conv)
qed

text \<open>
  \<open>re.findall\<close> returns the text of the one capturing group of the
  pattern, which is the extension, not the URL; an extension never starts with \<open>http\<close>,
  so the raw-text pass adds no link, whatever the document: the links are those of the
  anchors (and, in \<open>download_loinc.py\<close>, of the forms).
\<close>

lemma raw_text_pass_adds_nothing:
  "cms_find_downloadable_links env sp base_url s =
     remdups (concat (map (cms_anchor_links env base_url s) (a_hrefs sp))) \<and>
   loinc_find_downloadable_links env sp base_url s =
     remdups (concat (map (loinc_anchor_links env base_url s) (a_hrefs sp)) @
              concat (map (loinc_form_links env base_url) (forms sp)))"
proof -
  have "text_links cms_pattern_extensions sp = []"
    by (rule text_links_empty) (simp add: cms_pattern_extensions_def startswith_def)
  moreover have "text_links loinc_pattern_extensions sp = []"
    by (rule text_links_empty) (simp add: loinc_pattern_extensions_def startswith_def)
  ultimately show ?thesis
    by (simp add: cms_find_downloadable_links_def loinc_find_downloadable_links_def)
qed

text \<open>
  C8 at a failing input (\<open>script_page\<close>): a document with no anchor whose text holds the URL
  \<open>https://www.cms.gov/files/hcpcs2024.zip\<close> in a script block. The pattern matches
  there and \<open>re.findall\<close> returns \<open>zip\<close>; the extractor returns no link.
\<close>

theorem raw_text_pass_example:
  "re_findall cms_pattern_extensions (soup_str script_page) = [''zip''] \<and>
   cms_find_downloadable_links env script_page ''https://www.cms.gov/seed'' s = [] \<and>
   loinc_find_downloadable_links env script_page ''https://loinc.org/downloads/'' s = []"
proof -
  have "re_findall cms_pattern_extensions (soup_str script_page) = [''zip'']"
    by (simp add: re_findall_def script_page_def match_here_def ci_prefix_def url_char_def
          re_space_def cms_pattern_extensions_def str_defs)
  moreover have "text_links cms_pattern_extensions script_page = []"
    by (rule text_links_empty) (simp add: cms_pattern_extensions_def startswith_def)
  moreover have "text_links loinc_pattern_extensions script_page = []"
    by (rule text_links_empty) (simp add: loinc_pattern_extensions_def startswith_def)
  ultimately show ?thesis
    by (simp add: cms_find_downloadable_links_def loinc_find_downloadable_links_def
          script_page_def)
qed

section \<open>Traces\<close>

lemma requests_append [simp]: "requests (a @ b) = requests a @ requests b"
  by (simp add: requests_def map_filter_def)

lemma delays_append [simp]: "delays (a @ b) = delays a @ delays b"
  by (simp add: delays_def map_filter_def)

lemma page_fetches_append [simp]: "page_fetches (a @ b) = page_fetches a @ page_fetches b"
  by (simp add: page_fetches_def map_filter_def)

lemma file_fetches_append [simp]: "file_fetches (a @ b) = file_fetches a @ file_fetches b"
  by (simp add: file_fetches_def map_filter_def)

lemma fs_calls_append [simp]: "fs_calls (a @ b) = fs_calls a @ fs_calls b"
  by (simp add: fs_calls_def map_filter_def)

lemma requests_simps [simp]:
  "requests [] = []" "requests (Http r # evs) = r # requests evs"
  "requests (Sleep n # evs) = requests evs" "requests (Fs c # evs) = requests evs"
  "requests (Call_get_page u # evs) = requests evs"
  by (simp_all add: requests_def map_filter_simps)

lemma delays_simps [simp]:
  "delays [] = []" "delays (Http r # evs) = delays evs"
  "delays (Sleep n # evs) = n # delays evs" "delays (Fs c # evs) = delays evs"
  "delays (Call_get_page u # evs) = delays evs"
  by (simp_all add: delays_def map_filter_simps)

lemma page_fetches_simps [simp]:
  "page_fetches [] = []" "page_fetches (Http r # evs) = page_fetches evs"
  "page_fetches (Sleep n # evs) = page_fetches evs" "page_fetches (Fs c # evs) = page_fetches evs"
  "page_fetches (Call_get_page u # evs) = u # page_fetches evs"
  by (simp_all add: page_fetches_def map_filter_simps)

lemma file_fetches_simps [simp]:
  "file_fetches [] = []"
  "file_fetches (Http (GET u t True) # evs) = u # file_fetches evs"
  "file_fetches (Http (GET u t False) # evs) = file_fetches evs"
  "file_fetches (Http (POST u d t) # evs) = file_fetches evs"
  "file_fetches (Sleep n # evs) = file_fetches evs" "file_fetches (Fs c # evs) = file_fetches evs"
  "file_fetches (Call_get_page u # evs) = file_fetches evs"
  by (simp_all add: file_fetches_def map_filter_simps)

lemma fs_calls_simps [simp]:
  "fs_calls [] = []" "fs_calls (Http r # evs) = fs_calls evs"
  "fs_calls (Sleep n # evs) = fs_calls evs" "fs_calls (Fs c # evs) = c # fs_calls evs"
  "fs_calls (Call_get_page u # evs) = fs_calls evs"
  by (simp_all add: fs_calls_def map_filter_simps)

lemma send_checked_state: "send_checked env req s = (r, s1) \<Longrightarrow> s1 = log (Http req) s"
  by (auto simp: send_checked_def send_def split: option.splits if_splits)



section \<open>Retries (C4)\<close>

declare cms_get_page_from.simps [simp del]

lemma cms_get_page_from_events:
  "cms_get_page_from env url retries attempt s = (res, s') \<Longrightarrow>
   (if attempt < retries
    then \<exists>k. attempt + k < retries \<and>
             s' = s\<lparr>trace := trace s @ failed_rounds (GET url 30 False) (\<lambda>i. 2000) attempt k @
                                   [Http (GET url 30 False)]\<rparr> \<and>
             (res = None \<longrightarrow> attempt + k + 1 = retries)
    else s' = s \<and> res = None)"
proof (induction env url retries attempt s arbitrary: res s' rule: cms_get_page_from.induct)
  case (1 env url retries attempt s)
  show ?case
  proof (cases "attempt < retries")
    case False
    then show ?thesis using "1.prems" by (simp add: cms_get_page_from.simps)
  next
    case True
    obtain r s1 where sc: "send_checked env (GET url 30 False) s = (r, s1)"
      by (cases "send_checked env (GET url 30 False) s")
    then have s1: "s1 = log (Http (GET url 30 False)) s" by (rule send_checked_state)
    show ?thesis
    proof (cases r)
      case (Some resp)
      then have "res = Some resp" "s' = s1"
        using "1.prems" True sc by (simp_all add: cms_get_page_from.simps)
      then show ?thesis using True s1
        by (auto simp: log_def intro!: exI [of _ 0])
    next
      case None
      show ?thesis
      proof (cases "attempt + 1 < retries")
        case False
        then have "res = None" "s' = s1"
          using "1.prems" True sc None by (simp_all add: cms_get_page_from.simps)
        then show ?thesis using True False s1
          by (auto simp: log_def intro!: exI [of _ 0])
      next
        case more: True
        then have call: "cms_get_page_from env url retries (attempt + 1) (sleep 2000 s1) = (res, s')"
          using "1.prems" True sc None by (simp add: cms_get_page_from.simps)
        from "1.IH" [OF True sc [symmetric] None more call] more
        obtain k where k: "attempt + 1 + k < retries"
          "s' = (sleep 2000 s1)\<lparr>trace := trace (sleep 2000 s1) @
                 failed_rounds (GET url 30 False) (\<lambda>i. 2000) (attempt + 1) k @
                 [Http (GET url 30 False)]\<rparr>"
          "res = None \<longrightarrow> attempt + 1 + k + 1 = retries"
          by auto
        show ?thesis using True k s1
          by (auto simp: log_def sleep_def intro!: exI [of _ "Suc k"])
      qed
    qed
  qed
qed


declare loinc_get_page_from.simps [simp del]

lemma loinc_get_page_from_events:
  "loinc_get_page_from env url retries attempt s = (res, s') \<Longrightarrow>
   (if attempt < retries
    then \<exists>k. attempt + k < retries \<and>
             s' = s\<lparr>trace := trace s @ failed_rounds (GET url 60 False) (\<lambda>i. 2 ^ i * 1000) attempt k @
                                   [Http (GET url 60 False)]\<rparr> \<and>
             (res = None \<longrightarrow> attempt + k + 1 = retries)
    else s' = s \<and> res = None)"
proof (induction env url retries attempt s arbitrary: res s' rule: loinc_get_page_from.induct)
  case (1 env url retries attempt s)
  show ?case
  proof (cases "attempt < retries")
    case False
    then show ?thesis using "1.prems" by (simp add: loinc_get_page_from.simps)
  next
    case True
    obtain r s1 where sc: "send_checked env (GET url 60 False) s = (r, s1)"
      by (cases "send_checked env (GET url 60 False) s")
    then have s1: "s1 = log (Http (GET url 60 False)) s" by (rule send_checked_state)
    show ?thesis
    proof (cases r)
      case (Some resp)
      then have "res = Some resp" "s' = s1"
        using "1.prems" True sc by (simp_all add: loinc_get_page_from.simps)
      then show ?thesis using True s1
        by (auto simp: log_def intro!: exI [of _ 0])
    next
      case None
      show ?thesis
      proof (cases "attempt + 1 < retries")
        case False
        then have "res = None" "s' = s1"
          using "1.prems" True sc None by (simp_all add: loinc_get_page_from.simps)
        then show ?thesis using True False s1
          by (auto simp: log_def intro!: exI [of _ 0])
      next
        case more: True
        then have call: "loinc_get_page_from env url retries (attempt + 1) (sleep (2 ^ attempt * 1000) s1) = (res, s')"
          using "1.prems" True sc None by (simp add: loinc_get_page_from.simps)
        from "1.IH" [OF True sc [symmetric] None more call] more
        obtain k where k: "attempt + 1 + k < retries"
          "s' = (sleep (2 ^ attempt * 1000) s1)\<lparr>trace := trace (sleep (2 ^ attempt * 1000) s1) @
                 failed_rounds (GET url 60 False) (\<lambda>i. 2 ^ i * 1000) (attempt + 1) k @
                 [Http (GET url 60 False)]\<rparr>"
          "res = None \<longrightarrow> attempt + 1 + k + 1 = retries"
          by auto
        show ?thesis using True k s1
          by (auto simp: log_def sleep_def intro!: exI [of _ "Suc k"])
      qed
    qed
  qed
qed












section \<open>The Downloader (C2, C5, C10)\<close>

declare chunks_of.simps [simp del]
declare str.simps [simp del]
declare cms_crawl_page.simps [simp del]
declare loinc_get_page_from.simps [simp del]

lemmas model_defs = send_checked_def send_def log_def sleep_def fs_def fs_effect_def
  raises_for_status_def content_type_lower_def iter_content_def save_body_def
  has_extension_def has_keyword_def

lemma concat_chunks_of: "0 < n \<Longrightarrow> concat (chunks_of n xs) = xs"
proof (induction n xs rule: chunks_of.induct)
  case (1 n xs)
  then show ?case
    by (subst chunks_of.simps) auto
qed

lemma fs_frame:
  assumes "fs env c s = (ok, s1)"
  shows "VISITED_URLS s1 = VISITED_URLS s" "DOWNLOADED_FILES s1 = DOWNLOADED_FILES s"
    "trace s1 = trace s @ [Fs c]"
    "ok \<Longrightarrow> files s1 = fs_effect c (files s)" "\<not> ok \<Longrightarrow> files s1 = files s"
  using assms by (auto simp: fs_def log_def split: if_splits)

lemma write_chunks_frame:
  "write_chunks env filepath chunks s = (ok, s1) \<Longrightarrow>
   VISITED_URLS s1 = VISITED_URLS s \<and> DOWNLOADED_FILES s1 = DOWNLOADED_FILES s \<and>
   (\<exists>cs. trace s1 = trace s @ map Fs cs)"
proof (induction chunks arbitrary: s)
  case Nil
  then show ?case by (auto intro: exI [of _ "[]"])
next
  case (Cons c chunks)
  obtain ok1 s0 where w: "fs env (Write filepath c) s = (ok1, s0)"
    by (cases "fs env (Write filepath c) s")
  note f = fs_frame [OF w]
  show ?case
  proof (cases ok1)
    case False
    then have "s1 = s0" using Cons.prems w by simp
    then show ?thesis using f by (auto intro: exI [of _ "[Write filepath c]"])
  next
    case True
    then have "write_chunks env filepath chunks s0 = (ok, s1)" using Cons.prems w by simp
    from Cons.IH [OF this] obtain cs where
      "VISITED_URLS s1 = VISITED_URLS s0" "DOWNLOADED_FILES s1 = DOWNLOADED_FILES s0"
      "trace s1 = trace s0 @ map Fs cs" by auto
    then show ?thesis using f by (auto intro: exI [of _ "Write filepath c # cs"])
  qed
qed

lemma write_chunks_content:
  "write_chunks env filepath chunks s = (True, s1) \<Longrightarrow> files s filepath = Some old \<Longrightarrow>
   files s1 filepath = Some (old @ concat chunks)"
proof (induction chunks arbitrary: s old)
  case Nil
  then show ?case by simp
next
  case (Cons c chunks)
  obtain ok1 s0 where w: "fs env (Write filepath c) s = (ok1, s0)"
    by (cases "fs env (Write filepath c) s")
  then have ok1: ok1 and rest: "write_chunks env filepath chunks s0 = (True, s1)"
    using Cons.prems(1) by (auto split: bool.splits)
  have "files s0 filepath = Some (old @ c)"
    using fs_frame(4) [OF w ok1] Cons.prems(2) by (simp add: fs_effect_def)
  from Cons.IH [OF rest this] show ?case by simp
qed

lemma save_body_frame:
  "save_body env r filepath s = (ok, s1) \<Longrightarrow>
   VISITED_URLS s1 = VISITED_URLS s \<and> DOWNLOADED_FILES s1 = DOWNLOADED_FILES s \<and>
   (\<exists>cs. trace s1 = trace s @ map Fs cs)"
proof -
  assume a: "save_body env r filepath s = (ok, s1)"
  obtain ok1 sa where o: "fs env (Open_wb filepath) s = (ok1, sa)"
    by (cases "fs env (Open_wb filepath) s")
  note fo = fs_frame [OF o]
  show ?thesis
  proof (cases ok1)
    case False
    then have "s1 = sa" using a o by (auto simp: save_body_def split: bool.splits)
    then show ?thesis using fo by (auto intro: exI [of _ "[Open_wb filepath]"])
  next
    case True
    obtain chunks complete where ic: "iter_content r 8192 = (chunks, complete)"
      by (cases "iter_content r 8192")
    obtain ok2 sb where w: "write_chunks env filepath chunks sa = (ok2, sb)"
      by (cases "write_chunks env filepath chunks sa")
    from write_chunks_frame [OF w] obtain cs where
      fw: "VISITED_URLS sb = VISITED_URLS sa" "DOWNLOADED_FILES sb = DOWNLOADED_FILES sa"
      "trace sb = trace sa @ map Fs cs" by auto
    show ?thesis
    proof (cases "ok2 \<and> complete")
      case False
      then have "s1 = sb" using a o True ic w
        by (auto simp: save_body_def split: bool.splits if_splits)
      then show ?thesis using fo fw by (auto intro: exI [of _ "Open_wb filepath # cs"])
    next
      case both: True
      then have g: "fs env (Getsize filepath) sb = (ok, s1)"
        using a o True ic w by (auto simp: save_body_def split: bool.splits if_splits)
      note fg = fs_frame [OF g]
      show ?thesis using fo fw fg
        by (auto intro: exI [of _ "Open_wb filepath # cs @ [Getsize filepath]"])
    qed
  qed
qed

lemma save_body_content:
  assumes "save_body env r filepath s = (True, s1)"
  shows "files s1 filepath = Some (resp_content r)" "stream_breaks r = None"
proof -
  obtain ok1 sa where o: "fs env (Open_wb filepath) s = (ok1, sa)"
    by (cases "fs env (Open_wb filepath) s")
  then have ok1: ok1 using assms by (auto simp: save_body_def split: bool.splits)
  obtain chunks complete where ic: "iter_content r 8192 = (chunks, complete)"
    by (cases "iter_content r 8192")
  obtain ok2 sb where w: "write_chunks env filepath chunks sa = (ok2, sb)"
    by (cases "write_chunks env filepath chunks sa")
  have ok2: ok2 and complete: complete and g: "fs env (Getsize filepath) sb = (True, s1)"
    using assms o ok1 ic w by (auto simp: save_body_def split: bool.splits if_splits)
  have "files sa filepath = Some []"
    using fs_frame(4) [OF o ok1] by (simp add: fs_effect_def)
  then have "files sb filepath = Some (concat chunks)"
    using write_chunks_content [of env filepath chunks sa sb "[]"] w ok2 by simp
  moreover have "files s1 = files sb"
    using fs_frame(4) [OF g] by (simp add: fs_effect_def)
  moreover have "stream_breaks r = None \<and> chunks = chunks_of 8192 (resp_content r)"
    using ic complete by (auto simp: iter_content_def split: option.splits)
  ultimately show "files s1 filepath = Some (resp_content r)" "stream_breaks r = None"
    by (simp_all add: concat_chunks_of)
qed

lemma store_result:
  assumes "(case fs env (Makedirs d) s1 of
              (False, s2) \<Rightarrow> (False, s2)
            | (True, s2) \<Rightarrow>
                (case save_body env r filepath s2 of
                   (False, s3) \<Rightarrow> (False, s3)
                 | (True, s3) \<Rightarrow>
                     (True, s3\<lparr>DOWNLOADED_FILES := insert url (DOWNLOADED_FILES s3)\<rparr>))) = (ok, s')"
  shows "VISITED_URLS s' = VISITED_URLS s1" "\<exists>cs. trace s' = trace s1 @ map Fs cs"
    "ok \<Longrightarrow> DOWNLOADED_FILES s' = insert url (DOWNLOADED_FILES s1) \<and>
            files s' filepath = Some (resp_content r) \<and> stream_breaks r = None"
    "\<not> ok \<Longrightarrow> DOWNLOADED_FILES s' = DOWNLOADED_FILES s1"
proof -
  obtain ok1 s2 where m: "fs env (Makedirs d) s1 = (ok1, s2)"
    by (cases "fs env (Makedirs d) s1")
  note fm = fs_frame [OF m]
  obtain ok2 s3 where b: "save_body env r filepath s2 = (ok2, s3)"
    by (cases "save_body env r filepath s2")
  from save_body_frame [OF b] obtain cs where
    fb: "VISITED_URLS s3 = VISITED_URLS s2" "DOWNLOADED_FILES s3 = DOWNLOADED_FILES s2"
    "trace s3 = trace s2 @ map Fs cs" by auto
  have res: "(ok, s') = (if \<not> ok1 then (False, s2) else if \<not> ok2 then (False, s3)
      else (True, s3\<lparr>DOWNLOADED_FILES := insert url (DOWNLOADED_FILES s3)\<rparr>))"
    using assms m b by (auto split: bool.splits)
  show "VISITED_URLS s' = VISITED_URLS s1"
    using res fm fb by (auto split: if_splits)
  show "\<exists>cs. trace s' = trace s1 @ map Fs cs"
  proof (cases ok1)
    case False
    then show ?thesis using res fm by (auto intro: exI [of _ "[Makedirs d]"])
  next
    case True
    then show ?thesis using res fm fb
      by (auto split: if_splits intro: exI [of _ "Makedirs d # cs"])
  qed
  show "DOWNLOADED_FILES s' = insert url (DOWNLOADED_FILES s1) \<and>
      files s' filepath = Some (resp_content r) \<and> stream_breaks r = None" if ok
  proof -
    from that res have ok1 ok2 and s': "s' = s3\<lparr>DOWNLOADED_FILES := insert url (DOWNLOADED_FILES s3)\<rparr>"
      by (auto split: if_splits)
    with b have "save_body env r filepath s2 = (True, s3)" by simp
    from save_body_content [OF this] s' fm fb show ?thesis by simp
  qed
  show "DOWNLOADED_FILES s' = DOWNLOADED_FILES s1" if "\<not> ok"
    using that res fm fb by (auto split: if_splits)
qed

lemma cms_download_file_result:
  assumes "cms_download_file env url filepath s = (ok, s')"
  shows "VISITED_URLS s' = VISITED_URLS s"
    "url \<in> DOWNLOADED_FILES s \<Longrightarrow> s' = s \<and> \<not> ok"
    "url \<notin> DOWNLOADED_FILES s \<Longrightarrow> \<exists>cs. trace s' = trace s @ Http (GET url 60 True) # map Fs cs"
    "ok \<Longrightarrow> url \<notin> DOWNLOADED_FILES s \<and> DOWNLOADED_FILES s' = insert url (DOWNLOADED_FILES s) \<and>
       (\<exists>r. http env (trace s) (GET url 60 True) = Some r \<and> \<not> raises_for_status r \<and>
            stream_breaks r = None \<and> files s' filepath = Some (resp_content r))"
    "\<not> ok \<Longrightarrow> DOWNLOADED_FILES s' = DOWNLOADED_FILES s"
proof -
  show in_set: "s' = s \<and> \<not> ok" if "url \<in> DOWNLOADED_FILES s"
    using that assms by (simp add: cms_download_file_def)
  obtain r s1 where sc: "send_checked env (GET url 60 True) s = (r, s1)"
    by (cases "send_checked env (GET url 60 True) s")
  then have s1: "s1 = log (Http (GET url 60 True)) s" by (rule send_checked_state)
  have r: "r = Some x \<Longrightarrow> http env (trace s) (GET url 60 True) = Some x \<and> \<not> raises_for_status x" for x
    using sc by (auto simp: send_checked_def send_def split: option.splits if_splits)
  show "VISITED_URLS s' = VISITED_URLS s"
  proof (cases "url \<in> DOWNLOADED_FILES s")
    case True
    then show ?thesis using in_set by simp
  next
    case False
    show ?thesis
    proof (cases r)
      case None
      then have "s' = s1" using assms False sc by (simp add: cms_download_file_def)
      then show ?thesis using s1 by (simp add: log_def)
    next
      case (Some x)
      then have "(case fs env (Makedirs (dirname filepath)) s1 of
              (False, s2) \<Rightarrow> (False, s2)
            | (True, s2) \<Rightarrow>
                (case save_body env x filepath s2 of
                   (False, s3) \<Rightarrow> (False, s3)
                 | (True, s3) \<Rightarrow>
                     (True, s3\<lparr>DOWNLOADED_FILES := insert url (DOWNLOADED_FILES s3)\<rparr>))) = (ok, s')"
        using assms False sc by (simp add: cms_download_file_def)
      from store_result(1) [OF this] s1 show ?thesis by (simp add: log_def)
    qed
  qed
  show "\<exists>cs. trace s' = trace s @ Http (GET url 60 True) # map Fs cs" if "url \<notin> DOWNLOADED_FILES s"
  proof (cases r)
    case None
    then have "s' = s1" using assms that sc by (simp add: cms_download_file_def)
    then show ?thesis using s1 by (auto simp: log_def intro: exI [of _ "[]"])
  next
    case (Some x)
    then have "(case fs env (Makedirs (dirname filepath)) s1 of
            (False, s2) \<Rightarrow> (False, s2)
          | (True, s2) \<Rightarrow>
              (case save_body env x filepath s2 of
                 (False, s3) \<Rightarrow> (False, s3)
               | (True, s3) \<Rightarrow>
                   (True, s3\<lparr>DOWNLOADED_FILES := insert url (DOWNLOADED_FILES s3)\<rparr>))) = (ok, s')"
      using assms that sc by (simp add: cms_download_file_def)
    from store_result(2) [OF this] s1 show ?thesis by (auto simp: log_def)
  qed
  show "url \<notin> DOWNLOADED_FILES s \<and> DOWNLOADED_FILES s' = insert url (DOWNLOADED_FILES s) \<and>
       (\<exists>r. http env (trace s) (GET url 60 True) = Some r \<and> \<not> raises_for_status r \<and>
            stream_breaks r = None \<and> files s' filepath = Some (resp_content r))" if isok: ok
  proof -
    have notin: "url \<notin> DOWNLOADED_FILES s" using isok in_set by auto
    then obtain x where x: "r = Some x"
      using assms isok sc by (cases r) (auto simp: cms_download_file_def)
    then have "(case fs env (Makedirs (dirname filepath)) s1 of
            (False, s2) \<Rightarrow> (False, s2)
          | (True, s2) \<Rightarrow>
              (case save_body env x filepath s2 of
                 (False, s3) \<Rightarrow> (False, s3)
               | (True, s3) \<Rightarrow>
                   (True, s3\<lparr>DOWNLOADED_FILES := insert url (DOWNLOADED_FILES s3)\<rparr>))) = (ok, s')"
      using assms notin sc by (simp add: cms_download_file_def)
    from store_result(3) [OF this isok] r [OF x] s1 notin show ?thesis
      by (auto simp: log_def)
  qed
  show "DOWNLOADED_FILES s' = DOWNLOADED_FILES s" if "\<not> ok"
  proof (cases "url \<in> DOWNLOADED_FILES s")
    case True
    then show ?thesis using in_set by simp
  next
    case False
    show ?thesis
    proof (cases r)
      case None
      then have "s' = s1" using assms False sc by (simp add: cms_download_file_def)
      then show ?thesis using s1 by (simp add: log_def)
    next
      case (Some x)
      then have "(case fs env (Makedirs (dirname filepath)) s1 of
              (False, s2) \<Rightarrow> (False, s2)
            | (True, s2) \<Rightarrow>
                (case save_body env x filepath s2 of
                   (False, s3) \<Rightarrow> (False, s3)
                 | (True, s3) \<Rightarrow>
                     (True, s3\<lparr>DOWNLOADED_FILES := insert url (DOWNLOADED_FILES s3)\<rparr>))) = (ok, s')"
        using assms False sc by (simp add: cms_download_file_def)
      from store_result(4) [OF this that] s1 show ?thesis by (simp add: log_def)
    qed
  qed
qed

lemma loinc_download_file_result:
  assumes "loinc_download_file env url filepath s = (ok, s')"
  shows "VISITED_URLS s' = VISITED_URLS s"
    "url \<in> DOWNLOADED_FILES s \<Longrightarrow> s' = s \<and> \<not> ok"
    "url \<notin> DOWNLOADED_FILES s \<Longrightarrow> \<exists>cs. trace s' = trace s @ Http (GET url 300 True) # map Fs cs"
    "ok \<Longrightarrow> url \<notin> DOWNLOADED_FILES s \<and> DOWNLOADED_FILES s' = insert url (DOWNLOADED_FILES s) \<and>
       (\<exists>r. http env (trace s) (GET url 300 True) = Some r \<and> \<not> raises_for_status r \<and>
            stream_breaks r = None \<and> files s' filepath = Some (resp_content r))"
    "\<not> ok \<Longrightarrow> DOWNLOADED_FILES s' = DOWNLOADED_FILES s"
proof -
  obtain r s1 where sc: "send_checked env (GET url 300 True) s = (r, s1)"
    by (cases "send_checked env (GET url 300 True) s")
  then have s1: "s1 = log (Http (GET url 300 True)) s" by (rule send_checked_state)
  have r: "r = Some x \<Longrightarrow> http env (trace s) (GET url 300 True) = Some x \<and> \<not> raises_for_status x" for x
    using sc by (auto simp: send_checked_def send_def split: option.splits if_splits)
  let ?tail = "\<lambda>x. (case fs env (Makedirs (dirname filepath)) s1 of
              (False, s2) \<Rightarrow> (False, s2)
            | (True, s2) \<Rightarrow>
                (case save_body env x filepath s2 of
                   (False, s3) \<Rightarrow> (False, s3)
                 | (True, s3) \<Rightarrow>
                     (True, s3\<lparr>DOWNLOADED_FILES := insert url (DOWNLOADED_FILES s3)\<rparr>)))"
  have main: "(url \<in> DOWNLOADED_FILES s \<and> s' = s \<and> \<not> ok) \<or>
      (url \<notin> DOWNLOADED_FILES s \<and> s' = s1 \<and> \<not> ok) \<or>
      (url \<notin> DOWNLOADED_FILES s \<and> (\<exists>x. r = Some x \<and> ?tail x = (ok, s')))"
    using assms sc by (cases r) (auto simp: loinc_download_file_def split: if_splits)
  show "url \<in> DOWNLOADED_FILES s \<Longrightarrow> s' = s \<and> \<not> ok"
    using main by auto
  show "VISITED_URLS s' = VISITED_URLS s"
    using main s1 by (auto simp: log_def dest: store_result(1))
  show "\<exists>cs. trace s' = trace s @ Http (GET url 300 True) # map Fs cs" if notin: "url \<notin> DOWNLOADED_FILES s"
  proof -
    from main notin consider "s' = s1" | x where "?tail x = (ok, s')" by auto
    then show ?thesis
    proof cases
      case 1
      then show ?thesis using s1 by (auto simp: log_def intro: exI [of _ "[]"])
    next
      case 2
      from store_result(2) [OF this] s1 show ?thesis by (auto simp: log_def)
    qed
  qed
  show "url \<notin> DOWNLOADED_FILES s \<and> DOWNLOADED_FILES s' = insert url (DOWNLOADED_FILES s) \<and>
       (\<exists>r. http env (trace s) (GET url 300 True) = Some r \<and> \<not> raises_for_status r \<and>
            stream_breaks r = None \<and> files s' filepath = Some (resp_content r))" if isok: ok
  proof -
    from main isok obtain x where notin: "url \<notin> DOWNLOADED_FILES s" and x: "r = Some x"
      and t: "?tail x = (ok, s')" by auto
    from store_result(3) [OF t isok] r [OF x] s1 notin show ?thesis
      by (auto simp: log_def)
  qed
  show "DOWNLOADED_FILES s' = DOWNLOADED_FILES s" if notok: "\<not> ok"
  proof -
    from main consider "s' = s" | "s' = s1" | x where "?tail x = (ok, s')" by auto
    then show ?thesis
    proof cases
      case 1
      then show ?thesis by simp
    next
      case 2
      then show ?thesis using s1 by (simp add: log_def)
    next
      case 3
      from store_result(4) [OF this notok] s1 show ?thesis by (simp add: log_def)
    qed
  qed
qed

text \<open>What the loops of the crawlers need of a download: the sets and the page fetches.\<close>

lemma map_Fs_reads [simp]:
  "page_fetches (map Fs cs) = []" "file_fetches (map Fs cs) = []" "requests (map Fs cs) = []"
  "delays (map Fs cs) = []" "fs_calls (map Fs cs) = cs"
  by (induction cs) simp_all

text \<open>
  C10. In both crawlers \<open>download_file\<close> returns \<open>True\<close> only when the request was
  answered without an error status and the file at \<open>filepath\<close> holds the whole body, and
  only then is the URL added to \<open>DOWNLOADED_FILES\<close>. When it returns \<open>False\<close> (every
  exception of the network and of the file system ends there) the set is unchanged, so a
  URL that was not in the set is requested again by the next call.
\<close>

theorem download_marks_url_after_success:
  "(cms_download_file env url filepath s = (ok, s') \<longrightarrow>
      (if ok
       then url \<notin> DOWNLOADED_FILES s \<and> DOWNLOADED_FILES s' = insert url (DOWNLOADED_FILES s) \<and>
            (\<exists>r. http env (trace s) (GET url 60 True) = Some r \<and> \<not> raises_for_status r \<and>
                 stream_breaks r = None \<and> files s' filepath = Some (resp_content r))
       else DOWNLOADED_FILES s' = DOWNLOADED_FILES s \<and>
            (url \<notin> DOWNLOADED_FILES s \<longrightarrow>
               file_fetches (events_since s' (snd (cms_download_file env url other_path s'))) = [url]))) \<and>
   (loinc_download_file env url filepath s = (okl, sl) \<longrightarrow>
      (if okl
       then url \<notin> DOWNLOADED_FILES s \<and> DOWNLOADED_FILES sl = insert url (DOWNLOADED_FILES s) \<and>
            (\<exists>r. http env (trace s) (GET url 300 True) = Some r \<and> \<not> raises_for_status r \<and>
                 stream_breaks r = None \<and> files sl filepath = Some (resp_content r))
       else DOWNLOADED_FILES sl = DOWNLOADED_FILES s \<and>
            (url \<notin> DOWNLOADED_FILES s \<longrightarrow>
               file_fetches (events_since sl (snd (loinc_download_file env url other_path sl))) = [url])))"
proof (intro conjI impI)
  assume a: "cms_download_file env url filepath s = (ok, s')"
  note f = cms_download_file_result [OF a]
  have again: "file_fetches (events_since s' (snd (cms_download_file env url other_path s'))) = [url]"
    if "\<not> ok" "url \<notin> DOWNLOADED_FILES s"
  proof -
    have "url \<notin> DOWNLOADED_FILES s'" using that f(5) by simp
    have "\<exists>cs. trace (snd (cms_download_file env url other_path s')) =
        trace s' @ Http (GET url 60 True) # map Fs cs"
      using \<open>url \<notin> DOWNLOADED_FILES s'\<close>
      by (rule cms_download_file_result(3) [OF surjective_pairing])
    then show ?thesis by (auto simp: events_since_def)
  qed
  show "if ok
       then url \<notin> DOWNLOADED_FILES s \<and> DOWNLOADED_FILES s' = insert url (DOWNLOADED_FILES s) \<and>
            (\<exists>r. http env (trace s) (GET url 60 True) = Some r \<and> \<not> raises_for_status r \<and>
                 stream_breaks r = None \<and> files s' filepath = Some (resp_content r))
       else DOWNLOADED_FILES s' = DOWNLOADED_FILES s \<and>
            (url \<notin> DOWNLOADED_FILES s \<longrightarrow>
               file_fetches (events_since s' (snd (cms_download_file env url other_path s'))) = [url])"
    using f(4) f(5) again by (cases ok) simp_all
next
  assume a: "loinc_download_file env url filepath s = (okl, sl)"
  note f = loinc_download_file_result [OF a]
  have again: "file_fetches (events_since sl (snd (loinc_download_file env url other_path sl))) = [url]"
    if "\<not> okl" "url \<notin> DOWNLOADED_FILES s"
  proof -
    have "url \<notin> DOWNLOADED_FILES sl" using that f(5) by simp
    have "\<exists>cs. trace (snd (loinc_download_file env url other_path sl)) =
        trace sl @ Http (GET url 300 True) # map Fs cs"
      using \<open>url \<notin> DOWNLOADED_FILES sl\<close>
      by (rule loinc_download_file_result(3) [OF surjective_pairing])
    then show ?thesis by (auto simp: events_since_def)
  qed
  show "if okl
       then url \<notin> DOWNLOADED_FILES s \<and> DOWNLOADED_FILES sl = insert url (DOWNLOADED_FILES s) \<and>
            (\<exists>r. http env (trace s) (GET url 300 True) = Some r \<and> \<not> raises_for_status r \<and>
                 stream_breaks r = None \<and> files sl filepath = Some (resp_content r))
       else DOWNLOADED_FILES sl = DOWNLOADED_FILES s \<and>
            (url \<notin> DOWNLOADED_FILES s \<longrightarrow>
               file_fetches (events_since sl (snd (loinc_download_file env url other_path sl))) = [url])"
    using f(4) f(5) again by (cases okl) simp_all
qed

lemmas download_defs = cms_download_file_def loinc_download_file_def all_loinc_download_file_def
  chunks_of.simps cms_DOWNLOAD_DIR_def loinc_DOWNLOAD_DIR_def
  seed_env_def seed_env_ok_def login_wall_env_def crawl_seed_def zip_url_def init_state_def
  events_since_def model_defs str_defs example_defs Let_def

lemma cms_download_answered:
  "fst (cms_download_file seed_env_ok zip_url ''cms.gov/files/hcpcs.zip'' init_state)"
  "files (snd (cms_download_file seed_env_ok zip_url ''cms.gov/files/hcpcs.zip'' init_state))
     ''cms.gov/files/hcpcs.zip'' = Some ''PK''"
  "DOWNLOADED_FILES (snd (cms_download_file seed_env_ok zip_url ''cms.gov/files/hcpcs.zip'' init_state))
     = {zip_url}"
  by (simp_all add: download_defs)

lemma cms_download_unanswered:
  "\<not> fst (cms_download_file seed_env zip_url ''cms.gov/files/hcpcs.zip'' init_state)"
  "DOWNLOADED_FILES (snd (cms_download_file seed_env zip_url ''cms.gov/files/hcpcs.zip'' init_state))
     = {}"
  by (simp_all add: download_defs)

lemma loinc_download_answered:
  "fst (loinc_download_file seed_env_ok zip_url ''loinc/hcpcs.zip'' init_state)"
  "files (snd (loinc_download_file seed_env_ok zip_url ''loinc/hcpcs.zip'' init_state))
     ''loinc/hcpcs.zip'' = Some ''PK''"
  by (simp_all add: download_defs)

lemma loinc_download_unanswered:
  "\<not> fst (loinc_download_file seed_env zip_url ''loinc/hcpcs.zip'' init_state)"
  by (simp_all add: download_defs)

theorem download_marks_url_after_success_witness:
  "fst (cms_download_file seed_env_ok zip_url ''cms.gov/files/hcpcs.zip'' init_state) \<and>
   zip_url \<notin> DOWNLOADED_FILES init_state \<and>
   DOWNLOADED_FILES (snd (cms_download_file seed_env_ok zip_url ''cms.gov/files/hcpcs.zip'' init_state))
     = insert zip_url (DOWNLOADED_FILES init_state) \<and>
   fst (loinc_download_file seed_env_ok zip_url ''cms.gov/files/hcpcs.zip'' init_state) \<and>
   \<not> fst (cms_download_file seed_env zip_url ''cms.gov/files/hcpcs.zip'' init_state) \<and>
   DOWNLOADED_FILES (snd (cms_download_file seed_env zip_url ''cms.gov/files/hcpcs.zip'' init_state))
     = DOWNLOADED_FILES init_state \<and>
   file_fetches (events_since
       (snd (cms_download_file seed_env zip_url ''cms.gov/files/hcpcs.zip'' init_state))
       (snd (cms_download_file seed_env zip_url ''cms.gov/files/hcpcs.zip''
          (snd (cms_download_file seed_env zip_url ''cms.gov/files/hcpcs.zip'' init_state)))))
     = [zip_url]"
proof -
  have ok1: "fst (loinc_download_file seed_env_ok zip_url ''cms.gov/files/hcpcs.zip'' init_state)"
    by (simp add: download_defs)
  have notin: "zip_url \<notin> DOWNLOADED_FILES init_state"
    by (simp add: init_state_def)
  from download_marks_url_after_success [where env = seed_env_ok and url = zip_url
      and filepath = "''cms.gov/files/hcpcs.zip''" and s = init_state and ok = True and okl = True
      and s' = "snd (cms_download_file seed_env_ok zip_url ''cms.gov/files/hcpcs.zip'' init_state)"
      and sl = "snd (loinc_download_file seed_env_ok zip_url ''cms.gov/files/hcpcs.zip'' init_state)"]
    cms_download_answered(1) ok1
  have a: "DOWNLOADED_FILES (snd (cms_download_file seed_env_ok zip_url ''cms.gov/files/hcpcs.zip'' init_state))
     = insert zip_url (DOWNLOADED_FILES init_state)"
    by (simp add: prod_eq_iff)
  from download_marks_url_after_success [where env = seed_env and url = zip_url
      and filepath = "''cms.gov/files/hcpcs.zip''" and other_path = "''cms.gov/files/hcpcs.zip''"
      and s = init_state and ok = False
      and s' = "snd (cms_download_file seed_env zip_url ''cms.gov/files/hcpcs.zip'' init_state)"]
    cms_download_unanswered(1) notin
  have b: "DOWNLOADED_FILES (snd (cms_download_file seed_env zip_url ''cms.gov/files/hcpcs.zip'' init_state))
     = DOWNLOADED_FILES init_state \<and>
   file_fetches (events_since
       (snd (cms_download_file seed_env zip_url ''cms.gov/files/hcpcs.zip'' init_state))
       (snd (cms_download_file seed_env zip_url ''cms.gov/files/hcpcs.zip''
          (snd (cms_download_file seed_env zip_url ''cms.gov/files/hcpcs.zip'' init_state)))))
     = [zip_url]"
    by (simp add: prod_eq_iff)
  show ?thesis
    using a b cms_download_answered(1) cms_download_unanswered(1) ok1 notin by simp
qed





lemmas crawl_defs = cms_crawl_page.simps cms_get_page_def cms_get_page_from.simps
  cms_is_file_def cms_find_downloadable_links_def cms_anchor_links_def text_links_def
  re_findall_def cms_process_link_def cms_get_filename_from_url_def
  clean_def clean_char_def cms_DOWNLOAD_EXTENSIONS_def cms_keywords_def
  cms_pattern_extensions_def download_defs

lemma crawl_unanswered_files:
  "trace (cms_crawl_page seed_env crawl_seed 0 1 init_state) =
     [Call_get_page crawl_seed, Http (GET crawl_seed 30 False),
      Http (GET zip_url 60 True), Sleep 500,
      Call_get_page zip_url, Http (GET zip_url 30 False),
      Http (GET zip_url 60 True), Sleep 1000]"
  by (simp add: crawl_defs)

text \<open>
  C2, as the code has it. A call of \<open>download_file\<close> on a URL of \<open>DOWNLOADED_FILES\<close>
  returns \<open>False\<close> and changes nothing: it sends no request and calls the file system not
  once, whatever \<open>VISITED_URLS\<close> holds. A call returns \<open>True\<close> only on a URL that was not
  in the set, and puts it there; no call takes a URL out. So no URL is saved twice in a
  run. A URL whose download failed is not in the set and is requested again.
\<close>

theorem downloaded_url_is_skipped:
  "(url \<in> DOWNLOADED_FILES s \<longrightarrow>
      cms_download_file env url filepath s = (False, s) \<and>
      loinc_download_file env url filepath s = (False, s)) \<and>
   (fst (cms_download_file env url filepath s) \<longrightarrow>
      url \<notin> DOWNLOADED_FILES s \<and>
      url \<in> DOWNLOADED_FILES (snd (cms_download_file env url filepath s))) \<and>
   (fst (loinc_download_file env url filepath s) \<longrightarrow>
      url \<notin> DOWNLOADED_FILES s \<and>
      url \<in> DOWNLOADED_FILES (snd (loinc_download_file env url filepath s))) \<and>
   DOWNLOADED_FILES s \<subseteq> DOWNLOADED_FILES (snd (cms_download_file env url filepath s)) \<and>
   DOWNLOADED_FILES s \<subseteq> DOWNLOADED_FILES (snd (loinc_download_file env url filepath s)) \<and>
   VISITED_URLS (snd (cms_download_file env url filepath s)) = VISITED_URLS s \<and>
   VISITED_URLS (snd (loinc_download_file env url filepath s)) = VISITED_URLS s"
proof -
  have ec: "cms_download_file env url filepath s =
      (fst (cms_download_file env url filepath s), snd (cms_download_file env url filepath s))"
    by simp
  have el: "loinc_download_file env url filepath s =
      (fst (loinc_download_file env url filepath s), snd (loinc_download_file env url filepath s))"
    by simp
  note c = cms_download_file_result [OF ec]
  note l = loinc_download_file_result [OF el]
  have f1: "url \<in> DOWNLOADED_FILES s \<longrightarrow>
      cms_download_file env url filepath s = (False, s) \<and>
      loinc_download_file env url filepath s = (False, s)"
    by (simp add: cms_download_file_def loinc_download_file_def)
  have f2: "fst (cms_download_file env url filepath s) \<longrightarrow>
      url \<notin> DOWNLOADED_FILES s \<and>
      url \<in> DOWNLOADED_FILES (snd (cms_download_file env url filepath s))"
    using c(4) by simp
  have f3: "fst (loinc_download_file env url filepath s) \<longrightarrow>
      url \<notin> DOWNLOADED_FILES s \<and>
      url \<in> DOWNLOADED_FILES (snd (loinc_download_file env url filepath s))"
    using l(4) by simp
  have f4: "DOWNLOADED_FILES s \<subseteq> DOWNLOADED_FILES (snd (cms_download_file env url filepath s))"
    using c(4) c(5) by (cases "fst (cms_download_file env url filepath s)") auto
  have f5: "DOWNLOADED_FILES s \<subseteq> DOWNLOADED_FILES (snd (loinc_download_file env url filepath s))"
    using l(4) l(5) by (cases "fst (loinc_download_file env url filepath s)") auto
  show ?thesis
    by (intro conjI f1 f2 f3 f4 f5 c(1) l(1))
qed

theorem downloaded_url_is_skipped_witness:
  "zip_url \<in> DOWNLOADED_FILES (init_state\<lparr>DOWNLOADED_FILES := {zip_url}\<rparr>) \<and>
   cms_download_file seed_env_ok zip_url ''cms.gov/files/hcpcs.zip''
     (init_state\<lparr>DOWNLOADED_FILES := {zip_url}\<rparr>)
     = (False, init_state\<lparr>DOWNLOADED_FILES := {zip_url}\<rparr>) \<and>
   loinc_download_file seed_env_ok zip_url ''cms.gov/files/hcpcs.zip''
     (init_state\<lparr>DOWNLOADED_FILES := {zip_url}\<rparr>)
     = (False, init_state\<lparr>DOWNLOADED_FILES := {zip_url}\<rparr>) \<and>
   fst (cms_download_file seed_env_ok zip_url ''cms.gov/files/hcpcs.zip'' init_state) \<and>
   zip_url \<notin> DOWNLOADED_FILES init_state \<and>
   zip_url \<in> DOWNLOADED_FILES
     (snd (cms_download_file seed_env_ok zip_url ''cms.gov/files/hcpcs.zip'' init_state)) \<and>
   fst (loinc_download_file seed_env_ok zip_url ''cms.gov/files/hcpcs.zip'' init_state) \<and>
   zip_url \<in> DOWNLOADED_FILES
     (snd (loinc_download_file seed_env_ok zip_url ''cms.gov/files/hcpcs.zip'' init_state))"
proof -
  have m: "zip_url \<in> DOWNLOADED_FILES (init_state\<lparr>DOWNLOADED_FILES := {zip_url}\<rparr>)"
    by simp
  have l: "fst (loinc_download_file seed_env_ok zip_url ''cms.gov/files/hcpcs.zip'' init_state)"
    by (simp add: download_defs)
  note t1 = downloaded_url_is_skipped [where env = seed_env_ok and url = zip_url
        and filepath = "''cms.gov/files/hcpcs.zip''"
        and s = "init_state\<lparr>DOWNLOADED_FILES := {zip_url}\<rparr>"]
  note t2 = downloaded_url_is_skipped [where env = seed_env_ok and url = zip_url
        and filepath = "''cms.gov/files/hcpcs.zip''" and s = init_state]
  note a = t1 [THEN conjunct1, rule_format, OF m]
  note b = t2 [THEN conjunct2, THEN conjunct1, rule_format, OF cms_download_answered(1)]
  note c = t2 [THEN conjunct2, THEN conjunct2, THEN conjunct1, rule_format, OF l]
  show ?thesis
    by (intro conjI m l cms_download_answered(1) a [THEN conjunct1] a [THEN conjunct2]
        b [THEN conjunct1] b [THEN conjunct2] c [THEN conjunct2])
qed

text \<open>
  The claim as stated fails: a run can request one URL as a file twice. On \<open>seed_env\<close>
  the seed page links to a zip file whose download is not answered. \<open>crawl_page\<close> asks
  for the file in its first loop, then follows the same link as a page in its second
  loop, finds a file by the extension and asks for it again.
\<close>

theorem file_fetched_twice_counterexample:
  "file_fetches (trace (cms_crawl_page seed_env crawl_seed 0 1 init_state)) = [zip_url, zip_url] \<and>
   \<not> distinct (file_fetches (trace (cms_crawl_page seed_env crawl_seed 0 1 init_state)))"
  unfolding crawl_unanswered_files by simp

section \<open>The login (C6)\<close>

lemma lower_USERNAME: "lower USERNAME = ''cze''"
  by (simp add: USERNAME_def lower_def char_lower_def ascii_upper_def ord_def)

lemma login_url_fragments:
  "\<not> contains loinc_LOGIN_URL ''wp-admin''" "\<not> contains loinc_LOGIN_URL ''file-access''"
  "\<not> contains loinc_LOGIN_URL ''downloads''"
  by (simp_all add: loinc_LOGIN_URL_def)

text \<open>
  C6, as the code has it. When the login page is fetched, holds a form and the POST is
  answered, \<open>download_loinc.login\<close> returns \<open>True\<close> exactly when the URL of the response
  holds \<open>wp-admin\<close> or \<open>file-access\<close>, or the text of the response holds the user name
  (both in lower case); \<open>download_all_loinc.login_and_get_session\<close> reports success
  exactly when the text holds the user name or the URL holds \<open>downloads\<close>. That the URL
  of the response differs from the login URL is tested nowhere. A response from the login
  URL that does not mention the user is a failure in both.
\<close>

theorem login_success_test:
  "(http env (trace s) (GET loinc_LOGIN_URL 30 False) = Some login_page \<and>
    \<not> raises_for_status login_page \<and>
    BeautifulSoup env (resp_content login_page) = Some sp \<and>
    find_login_form sp = Some f \<and>
    http env (trace s @ [Http (GET loinc_LOGIN_URL 30 False)])
      (POST loinc_LOGIN_URL
        (fold add_hidden (hidden_inputs f)
          [(''log'', USERNAME), (''pwd'', password), (''wp-submit'', ''Log In''),
           (''redirect_to'', loinc_DOWNLOAD_PAGE_URL), (''testcookie'', ''1'')]) 30)
      = Some response \<longrightarrow>
      fst (loinc_login env password s) =
        (contains (resp_url response) ''wp-admin'' \<or>
         contains (resp_url response) ''file-access'' \<or>
         contains (lower (resp_text response)) ''cze'') \<and>
      (resp_url response = loinc_LOGIN_URL \<and> \<not> contains (lower (resp_text response)) ''cze''
         \<longrightarrow> \<not> fst (loinc_login env password s))) \<and>
   (http env (trace s) (GET loinc_LOGIN_URL 30 False) = Some login_page \<and>
    BeautifulSoup env (resp_content login_page) = Some sp \<and>
    find_login_form sp = Some f \<and>
    http env (trace s @ [Http (GET loinc_LOGIN_URL 30 False)])
      (POST loinc_LOGIN_URL
        (fold add_hidden (hidden_inputs f)
          [(''log'', USERNAME), (''pwd'', password), (''wp-submit'', ''Log In''),
           (''redirect_to'', ''https://loinc.org/downloads/''), (''testcookie'', ''1'')]) 30)
      = Some answer \<longrightarrow>
      fst (login_and_get_session env password s) =
        Inr (if contains (lower (resp_text answer)) ''cze'' \<or>
                contains (resp_url answer) ''downloads''
             then Login_successful else Login_may_have_failed) \<and>
      (resp_url answer = loinc_LOGIN_URL \<and> \<not> contains (lower (resp_text answer)) ''cze''
         \<longrightarrow> fst (login_and_get_session env password s) = Inr Login_may_have_failed))"
proof (intro conjI impI)
  assume a: "http env (trace s) (GET loinc_LOGIN_URL 30 False) = Some login_page \<and>
    \<not> raises_for_status login_page \<and>
    BeautifulSoup env (resp_content login_page) = Some sp \<and>
    find_login_form sp = Some f \<and>
    http env (trace s @ [Http (GET loinc_LOGIN_URL 30 False)])
      (POST loinc_LOGIN_URL
        (fold add_hidden (hidden_inputs f)
          [(''log'', USERNAME), (''pwd'', password), (''wp-submit'', ''Log In''),
           (''redirect_to'', loinc_DOWNLOAD_PAGE_URL), (''testcookie'', ''1'')]) 30)
      = Some response"
  then have "fst (loinc_login env password s) = loinc_login_check response"
    by (auto simp: loinc_login_def send_checked_def send_def log_def Let_def
          split: prod.splits bool.splits)
  then show r: "fst (loinc_login env password s) =
        (contains (resp_url response) ''wp-admin'' \<or>
         contains (resp_url response) ''file-access'' \<or>
         contains (lower (resp_text response)) ''cze'')"
    by (simp add: loinc_login_check_def lower_USERNAME)
  show "\<not> fst (loinc_login env password s)"
    if "resp_url response = loinc_LOGIN_URL \<and> \<not> contains (lower (resp_text response)) ''cze''"
    using that r login_url_fragments by simp
next
  assume a: "http env (trace s) (GET loinc_LOGIN_URL 30 False) = Some login_page \<and>
    BeautifulSoup env (resp_content login_page) = Some sp \<and>
    find_login_form sp = Some f \<and>
    http env (trace s @ [Http (GET loinc_LOGIN_URL 30 False)])
      (POST loinc_LOGIN_URL
        (fold add_hidden (hidden_inputs f)
          [(''log'', USERNAME), (''pwd'', password), (''wp-submit'', ''Log In''),
           (''redirect_to'', ''https://loinc.org/downloads/''), (''testcookie'', ''1'')]) 30)
      = Some answer"
  then have "fst (login_and_get_session env password s) =
      Inr (if all_loinc_login_check answer then Login_successful else Login_may_have_failed)"
    by (auto simp: login_and_get_session_def send_def log_def Let_def split: prod.splits)
  then show r: "fst (login_and_get_session env password s) =
        Inr (if contains (lower (resp_text answer)) ''cze'' \<or>
                contains (resp_url answer) ''downloads''
             then Login_successful else Login_may_have_failed)"
    by (simp add: all_loinc_login_check_def lower_USERNAME)
  show "fst (login_and_get_session env password s) = Inr Login_may_have_failed"
    if "resp_url answer = loinc_LOGIN_URL \<and> \<not> contains (lower (resp_text answer)) ''cze''"
    using that r login_url_fragments by simp
qed

lemmas login_defs = loinc_login_def login_and_get_session_def loinc_login_check_def
  all_loinc_login_check_def find_login_form_def hidden_inputs_def add_hidden_def attr_def
  attr_or_def login_env_def login_page_soup_def front_page_response_def
  loinc_LOGIN_URL_def loinc_DOWNLOAD_PAGE_URL_def USERNAME_def init_state_def
  model_defs str_defs example_defs Let_def

lemma login_env_answers:
  "http login_env (trace init_state) (GET loinc_LOGIN_URL 30 False) =
     Some (ok_response loinc_LOGIN_URL ''text/html'' ''login page'')"
  "\<not> raises_for_status (ok_response loinc_LOGIN_URL ''text/html'' ''login page'')"
  "BeautifulSoup login_env (resp_content (ok_response loinc_LOGIN_URL ''text/html'' ''login page''))
     = Some login_page_soup"
  "find_login_form login_page_soup = Some (hd (forms login_page_soup))"
  "http login_env (trace init_state @ [Http (GET loinc_LOGIN_URL 30 False)])
      (POST loinc_LOGIN_URL
        (fold add_hidden (hidden_inputs (hd (forms login_page_soup)))
          [(''log'', USERNAME), (''pwd'', ''secret''), (''wp-submit'', ''Log In''),
           (''redirect_to'', loinc_DOWNLOAD_PAGE_URL), (''testcookie'', ''1'')]) 30)
      = Some front_page_response"
  "http login_env (trace init_state @ [Http (GET loinc_LOGIN_URL 30 False)])
      (POST loinc_LOGIN_URL
        (fold add_hidden (hidden_inputs (hd (forms login_page_soup)))
          [(''log'', USERNAME), (''pwd'', ''secret''), (''wp-submit'', ''Log In''),
           (''redirect_to'', ''https://loinc.org/downloads/''), (''testcookie'', ''1'')]) 30)
      = Some front_page_response"
  by (simp_all add: login_defs)

lemma front_page_facts:
  "resp_url front_page_response \<noteq> loinc_LOGIN_URL"
  "\<not> contains (resp_url front_page_response) ''wp-admin''"
  "\<not> contains (resp_url front_page_response) ''file-access''"
  "\<not> contains (resp_url front_page_response) ''downloads''"
  "\<not> contains (lower (resp_text front_page_response)) ''cze''"
  by (simp_all add: login_defs)

theorem login_success_test_witness:
  "http login_env (trace init_state) (GET loinc_LOGIN_URL 30 False) =
     Some (ok_response loinc_LOGIN_URL ''text/html'' ''login page'') \<and>
   find_login_form login_page_soup = Some (hd (forms login_page_soup)) \<and>
   \<not> contains (resp_url front_page_response) ''wp-admin'' \<and>
   \<not> contains (resp_url front_page_response) ''file-access'' \<and>
   \<not> contains (lower (resp_text front_page_response)) ''cze'' \<and>
   \<not> fst (loinc_login login_env ''secret'' init_state) \<and>
   fst (login_and_get_session login_env ''secret'' init_state) = Inr Login_may_have_failed"
proof -
  note t = login_success_test [where env = login_env and s = init_state
      and login_page = "ok_response loinc_LOGIN_URL ''text/html'' ''login page''"
      and sp = login_page_soup and f = "hd (forms login_page_soup)" and password = "''secret''"
      and response = front_page_response and answer = front_page_response]
  have a: "fst (loinc_login login_env ''secret'' init_state) =
        (contains (resp_url front_page_response) ''wp-admin'' \<or>
         contains (resp_url front_page_response) ''file-access'' \<or>
         contains (lower (resp_text front_page_response)) ''cze'')"
    using t [THEN conjunct1, rule_format, THEN conjunct1] login_env_answers by blast
  have b: "fst (login_and_get_session login_env ''secret'' init_state) =
        Inr (if contains (lower (resp_text front_page_response)) ''cze'' \<or>
                contains (resp_url front_page_response) ''downloads''
             then Login_successful else Login_may_have_failed)"
    using t [THEN conjunct2, rule_format, THEN conjunct1] login_env_answers by blast
  show ?thesis
    using a b front_page_facts login_env_answers(1) login_env_answers(4) by simp
qed

text \<open>
  The claim as stated fails: on \<open>login_env\<close> the response to the login POST comes from
  \<open>https://loinc.org/\<close>, which differs from the login URL, and \<open>login\<close> returns \<open>False\<close>.
\<close>

theorem login_url_differs_counterexample:
  "http login_env [Http (GET loinc_LOGIN_URL 30 False)]
      (POST loinc_LOGIN_URL
         [(''log'', ''cze''), (''pwd'', ''secret''), (''wp-submit'', ''Log In''),
          (''redirect_to'', loinc_DOWNLOAD_PAGE_URL), (''testcookie'', ''1''),
          (''nonce'', ''abc123'')] 30)
      = Some front_page_response \<and>
   resp_url front_page_response \<noteq> loinc_LOGIN_URL \<and>
   \<not> fst (loinc_login login_env ''secret'' init_state) \<and>
   requests (trace (snd (loinc_login login_env ''secret'' init_state))) =
     [GET loinc_LOGIN_URL 30 False,
      POST loinc_LOGIN_URL
         [(''log'', ''cze''), (''pwd'', ''secret''), (''wp-submit'', ''Log In''),
          (''redirect_to'', loinc_DOWNLOAD_PAGE_URL), (''testcookie'', ''1''),
          (''nonce'', ''abc123'')] 30]"
  by (simp add: login_defs)

section \<open>The crawl of \<open>crawl_cms_hcpcs.py\<close> (C1, C3, C7)\<close>

lemma failed_rounds_reads [simp]:
  "page_fetches (failed_rounds req d a k) = []"
  "file_fetches (failed_rounds (GET url t False) d a k) = []"
  by (induction k arbitrary: a) simp_all

lemma cms_get_page_frame:
  assumes "cms_get_page env url retries s = (res, s')"
  shows "VISITED_URLS s' = VISITED_URLS s" "DOWNLOADED_FILES s' = DOWNLOADED_FILES s"
    "page_fetches (trace s') = page_fetches (trace s) @ [url]"
    "file_fetches (trace s') = file_fetches (trace s)"
  using cms_get_page_from_events [OF assms [unfolded cms_get_page_def]]
  by (auto simp: log_def split: if_splits)

lemma cms_download_file_frame:
  "VISITED_URLS (snd (cms_download_file env url filepath s)) = VISITED_URLS s"
  "page_fetches (trace (snd (cms_download_file env url filepath s))) = page_fetches (trace s)"
proof -
  have e: "cms_download_file env url filepath s =
      (fst (cms_download_file env url filepath s), snd (cms_download_file env url filepath s))"
    by simp
  note f = cms_download_file_result [OF e]
  show "VISITED_URLS (snd (cms_download_file env url filepath s)) = VISITED_URLS s"
    by (rule f(1))
  show "page_fetches (trace (snd (cms_download_file env url filepath s))) = page_fetches (trace s)"
  proof (cases "url \<in> DOWNLOADED_FILES s")
    case True
    then show ?thesis using f(2) by simp
  next
    case False
    from f(3) [OF this] obtain cs where
      "trace (snd (cms_download_file env url filepath s)) =
         trace s @ Http (GET url 60 True) # map Fs cs" by blast
    then show ?thesis by simp
  qed
qed

lemma cms_process_link_frame:
  "VISITED_URLS (cms_process_link env link s) = VISITED_URLS s"
  "page_fetches (trace (cms_process_link env link s)) = page_fetches (trace s)"
  by (simp_all add: cms_process_link_def Let_def sleep_def log_def cms_download_file_frame)

lemma fold_process_link_frame:
  "VISITED_URLS (fold (cms_process_link env) links s) = VISITED_URLS s \<and>
   page_fetches (trace (fold (cms_process_link env) links s)) = page_fetches (trace s)"
  by (induction links arbitrary: s) (simp_all add: cms_process_link_frame)

lemma sleep_frame [simp]:
  "VISITED_URLS (sleep n s) = VISITED_URLS s" "DOWNLOADED_FILES (sleep n s) = DOWNLOADED_FILES s"
  "page_fetches (trace (sleep n s)) = page_fetches (trace s)"
  "fetch_inv (sleep n s) = fetch_inv s"
  by (simp_all add: sleep_def log_def fetch_inv_def)

lemma fold_keeps:
  assumes "\<And>x s. x \<in> set xs \<Longrightarrow> I s \<Longrightarrow> I (f x s)" and "I s"
  shows "I (fold f xs s)"
  using assms by (induction xs arbitrary: s) simp_all

lemma cms_crawl_page_inv:
  "fetch_inv s \<and> A \<subseteq> VISITED_URLS s \<Longrightarrow>
   fetch_inv (cms_crawl_page env url depth max_depth s) \<and>
   A \<subseteq> VISITED_URLS (cms_crawl_page env url depth max_depth s)"
proof (induction env url depth max_depth s rule: cms_crawl_page.induct)
  case (1 env url depth max_depth s)
  show ?case
  proof (cases "max_depth < depth \<or> url \<in> VISITED_URLS s")
    case True
    then show ?thesis using "1.prems" by (auto simp: cms_crawl_page.simps)
  next
    case False
    obtain res s1 where
      g: "cms_get_page env url 3 (s\<lparr>VISITED_URLS := insert url (VISITED_URLS s)\<rparr>) = (res, s1)"
      by (cases "cms_get_page env url 3 (s\<lparr>VISITED_URLS := insert url (VISITED_URLS s)\<rparr>)")
    note fg = cms_get_page_frame [OF g]
    have inv1: "fetch_inv s1 \<and> A \<subseteq> VISITED_URLS s1"
      using fg "1.prems" False by (auto simp: fetch_inv_def)
    show ?thesis
    proof (cases res)
      case None
      then have "cms_crawl_page env url depth max_depth s = s1"
        using False g by (simp add: cms_crawl_page.simps)
      then show ?thesis using inv1 by simp
    next
      case (Some response)
      show ?thesis
      proof (cases "cms_is_file env url response")
        case True
        then obtain filepath where
          "cms_crawl_page env url depth max_depth s = snd (cms_download_file env url filepath s1)"
          using False g Some by (simp add: cms_crawl_page.simps Let_def)
        then show ?thesis using inv1 by (simp add: fetch_inv_def cms_download_file_frame)
      next
        case nofile: False
        show ?thesis
        proof (cases "BeautifulSoup env (resp_content response)")
          case None
          then have "cms_crawl_page env url depth max_depth s = s1"
            using False g Some nofile by (simp add: cms_crawl_page.simps)
          then show ?thesis using inv1 by simp
        next
          case parsed: (Some sp)
          define links where "links = cms_find_downloadable_links env sp url s1"
          define s2 where "s2 = fold (cms_process_link env) links s1"
          let ?step = "\<lambda>link st.
              if link \<notin> VISITED_URLS st \<and> contains (netloc (urlparse env link)) ''cms.gov''
              then sleep 1000 (cms_crawl_page env link (depth + 1) max_depth st) else st"
          have eq: "cms_crawl_page env url depth max_depth s = fold ?step links s2"
            using False g Some nofile parsed
            by (simp add: cms_crawl_page.simps Let_def links_def s2_def)
          have inv2: "fetch_inv s2 \<and> A \<subseteq> VISITED_URLS s2"
            using inv1 fold_process_link_frame [of env links s1]
            by (simp add: s2_def fetch_inv_def)
          have step: "fetch_inv (?step link st) \<and> A \<subseteq> VISITED_URLS (?step link st)"
            if "link \<in> set links" and "fetch_inv st \<and> A \<subseteq> VISITED_URLS st" for link st
          proof (cases "link \<notin> VISITED_URLS st \<and> contains (netloc (urlparse env link)) ''cms.gov''")
            case False
            then show ?thesis using that by auto
          next
            case True
            have "fetch_inv (cms_crawl_page env link (depth + 1) max_depth st) \<and>
                A \<subseteq> VISITED_URLS (cms_crawl_page env link (depth + 1) max_depth st)"
              using "1.IH" [of res s1 response sp links s2 link st] False g Some nofile parsed
                that True
              by (simp add: links_def s2_def)
            then show ?thesis using True by simp
          qed
          have "fetch_inv (fold ?step links s2) \<and> A \<subseteq> VISITED_URLS (fold ?step links s2)"
            by (rule fold_keeps [where I = "\<lambda>st. fetch_inv st \<and> A \<subseteq> VISITED_URLS st"])
              (use step inv2 in auto)
          then show ?thesis using eq by simp
        qed
      qed
    qed
  qed
qed










section \<open>The crawl step of \<open>download_loinc.py\<close> (C1)\<close>

lemma loinc_get_page_frame:
  assumes "loinc_get_page env url retries s = (res, s')"
  shows "VISITED_URLS s' = VISITED_URLS s"
    "\<exists>evs. trace s' = trace s @ Call_get_page url # evs \<and> page_fetches evs = []"
proof -
  note e = loinc_get_page_from_events [OF assms [unfolded loinc_get_page_def]]
  show "VISITED_URLS s' = VISITED_URLS s"
    using e by (auto simp: log_def split: if_splits)
  show "\<exists>evs. trace s' = trace s @ Call_get_page url # evs \<and> page_fetches evs = []"
  proof (cases "0 < retries")
    case False
    then show ?thesis using e by (auto simp: log_def intro: exI [of _ "[]"])
  next
    case True
    then obtain k where
      "s' = (log (Call_get_page url) s)\<lparr>trace := trace (log (Call_get_page url) s) @
          failed_rounds (GET url 60 False) (\<lambda>i. 2 ^ i * 1000) 0 k @ [Http (GET url 60 False)]\<rparr>"
      using e by auto
    then have "trace s' = trace s @ Call_get_page url #
        (failed_rounds (GET url 60 False) (\<lambda>i. 2 ^ i * 1000) 0 k @ [Http (GET url 60 False)])"
      by (simp add: log_def)
    moreover have "page_fetches
        (failed_rounds (GET url 60 False) (\<lambda>i. 2 ^ i * 1000) 0 k @ [Http (GET url 60 False)]) = []"
      by simp
    ultimately show ?thesis by blast
  qed
qed

lemma loinc_download_file_frame:
  assumes "loinc_download_file env url filepath s = (ok, s')"
  shows "VISITED_URLS s' = VISITED_URLS s"
    "\<exists>evs. trace s' = trace s @ evs \<and> page_fetches evs = []"
proof -
  note f = loinc_download_file_result [OF assms]
  show "VISITED_URLS s' = VISITED_URLS s" by (rule f(1))
  show "\<exists>evs. trace s' = trace s @ evs \<and> page_fetches evs = []"
  proof (cases "url \<in> DOWNLOADED_FILES s")
    case True
    then have "trace s' = trace s @ []" using f(2) by simp
    moreover have "page_fetches [] = []" by simp
    ultimately show ?thesis by blast
  next
    case False
    from f(3) [OF this] obtain cs where
      "trace s' = trace s @ Http (GET url 300 True) # map Fs cs" by blast
    moreover have "page_fetches (Http (GET url 300 True) # map Fs cs) = []" by simp
    ultimately show ?thesis by blast
  qed
qed

lemma loinc_process_links_frame:
  "loinc_process_links env links s = (r, s') \<Longrightarrow>
   VISITED_URLS s' = VISITED_URLS s \<and>
   (\<exists>evs. trace s' = trace s @ evs \<and> page_fetches evs = [])"
proof (induction links arbitrary: s)
  case Nil
  then have "trace s' = trace s @ []" "VISITED_URLS s' = VISITED_URLS s" by simp_all
  moreover have "page_fetches [] = []" by simp
  ultimately show ?case by blast
next
  case (Cons link links)
  show ?case
  proof (cases "has_extension loinc_DOWNLOAD_EXTENSIONS (lower (path (urlparse env link)))")
    case False
    then have "loinc_process_links env links s = (r, s')" using Cons.prems by simp
    then show ?thesis by (rule Cons.IH)
  next
    case True
    show ?thesis
    proof (cases "loinc_get_filename_from_url env link ''file''")
      case (Inl e)
      then have "trace s' = trace s @ []" "VISITED_URLS s' = VISITED_URLS s"
        using Cons.prems True by simp_all
      moreover have "page_fetches [] = []" by simp
      ultimately show ?thesis by blast
    next
      case (Inr filename)
      obtain ok s1 where d: "loinc_download_file env link (join2 loinc_DOWNLOAD_DIR filename) s = (ok, s1)"
        by (cases "loinc_download_file env link (join2 loinc_DOWNLOAD_DIR filename) s")
      from loinc_download_file_frame [OF d] obtain e1 where
        f1: "VISITED_URLS s1 = VISITED_URLS s" "trace s1 = trace s @ e1" "page_fetches e1 = []"
        by blast
      have "loinc_process_links env links (sleep 1000 s1) = (r, s')"
        using Cons.prems True Inr d by simp
      from Cons.IH [OF this] obtain e2 where
        f2: "VISITED_URLS s' = VISITED_URLS s1" "trace s' = trace (sleep 1000 s1) @ e2"
        "page_fetches e2 = []"
        by auto
      have "trace s' = trace s @ (e1 @ Sleep 1000 # e2)"
        using f1 f2 by (simp add: sleep_def log_def)
      moreover have "page_fetches (e1 @ Sleep 1000 # e2) = []"
        using f1 f2 by simp
      ultimately show ?thesis using f1 f2 by blast
    qed
  qed
qed

lemma accept_terms_frame:
  assumes "accept_terms_and_download env url s = (r, s')"
  shows "VISITED_URLS s' = VISITED_URLS s"
    "\<exists>evs. trace s' = trace s @ Call_get_page url # evs \<and> page_fetches evs = []"
proof -
  obtain res s1 where g: "loinc_get_page env url 3 s = (res, s1)"
    by (cases "loinc_get_page env url 3 s")
  from loinc_get_page_frame [OF g] obtain e1 where
    f1: "VISITED_URLS s1 = VISITED_URLS s" "trace s1 = trace s @ Call_get_page url # e1"
    "page_fetches e1 = []"
    by blast
  have "s' = s1 \<or> (\<exists>req. s' = log (Http req) s1)"
    using assms g
    by (auto simp: accept_terms_and_download_def send_def Let_def
          split: option.splits list.splits prod.splits)
  then consider "s' = s1" | req where "s' = log (Http req) s1" by blast
  then have "VISITED_URLS s' = VISITED_URLS s \<and>
      (\<exists>evs. trace s' = trace s @ Call_get_page url # evs \<and> page_fetches evs = [])"
  proof cases
    case 1
    then show ?thesis using f1 by blast
  next
    case 2
    then have "trace s' = trace s @ Call_get_page url # (e1 @ [Http req])"
      "VISITED_URLS s' = VISITED_URLS s"
      using f1 by (simp_all add: log_def)
    moreover have "page_fetches (e1 @ [Http req]) = []" using f1 by simp
    ultimately show ?thesis by blast
  qed
  then show "VISITED_URLS s' = VISITED_URLS s"
    and "\<exists>evs. trace s' = trace s @ Call_get_page url # evs \<and> page_fetches evs = []"
    by simp_all
qed

lemma crawl_download_page_fetches:
  assumes "url \<notin> VISITED_URLS s"
  shows "VISITED_URLS (snd (crawl_download_page env url s)) = insert url (VISITED_URLS s) \<and>
    (page_fetches (events_since s (snd (crawl_download_page env url s))) = [url] \<or>
     page_fetches (events_since s (snd (crawl_download_page env url s))) = [url, url])"
proof -
  let ?s0 = "s\<lparr>VISITED_URLS := insert url (VISITED_URLS s)\<rparr>"
  obtain res s1 where g: "loinc_get_page env url 3 ?s0 = (res, s1)"
    by (cases "loinc_get_page env url 3 ?s0")
  from loinc_get_page_frame [OF g] obtain e1 where
    f1: "VISITED_URLS s1 = insert url (VISITED_URLS s)" "trace s1 = trace s @ Call_get_page url # e1"
    "page_fetches e1 = []"
    by auto
  have one: "VISITED_URLS s' = insert url (VISITED_URLS s) \<and>
      (page_fetches (events_since s s') = [url] \<or> page_fetches (events_since s s') = [url, url])"
    if "VISITED_URLS s' = VISITED_URLS s1" "trace s' = trace s1 @ e2" "page_fetches e2 = []"
    for s' e2
    using that f1 by (simp add: events_since_def)
  have same: "VISITED_URLS s1 = VISITED_URLS s1" "trace s1 = trace s1 @ []" "page_fetches [] = []"
    by simp_all
  show ?thesis
  proof (cases res)
    case None
    then have "snd (crawl_download_page env url s) = s1"
      using assms g by (simp add: crawl_download_page_def)
    then show ?thesis using one [OF same] by simp
  next
    case (Some response)
    show ?thesis
    proof (cases "loinc_is_file env url response")
      case True
      show ?thesis
      proof (cases "loinc_get_filename_from_url env url (''file_'' @ str (card (DOWNLOADED_FILES s1)))")
        case (Inl e)
        then have "snd (crawl_download_page env url s) = s1"
          using assms g Some True by (simp add: crawl_download_page_def)
        then show ?thesis using one [OF same] by simp
      next
        case (Inr filename)
        obtain ok s2 where
          d: "loinc_download_file env url (join2 loinc_DOWNLOAD_DIR filename) s1 = (ok, s2)"
          by (cases "loinc_download_file env url (join2 loinc_DOWNLOAD_DIR filename) s1")
        then have "snd (crawl_download_page env url s) = s2"
          using assms g Some True Inr by (simp add: crawl_download_page_def)
        moreover from loinc_download_file_frame [OF d] obtain e2 where
          "VISITED_URLS s2 = VISITED_URLS s1" "trace s2 = trace s1 @ e2" "page_fetches e2 = []"
          by blast
        ultimately show ?thesis using one by simp
      qed
    next
      case nofile: False
      show ?thesis
      proof (cases "BeautifulSoup env (resp_content response)")
        case None
        then have "snd (crawl_download_page env url s) = s1"
          using assms g Some nofile by (simp add: crawl_download_page_def)
        then show ?thesis using one [OF same] by simp
      next
        case parsed: (Some sp)
        obtain r2 s2 where
          p: "loinc_process_links env (loinc_find_downloadable_links env sp url s1) s1 = (r2, s2)"
          by (cases "loinc_process_links env (loinc_find_downloadable_links env sp url s1) s1")
        from loinc_process_links_frame [OF p] obtain e2 where
          f2: "VISITED_URLS s2 = VISITED_URLS s1" "trace s2 = trace s1 @ e2" "page_fetches e2 = []"
          by blast
        show ?thesis
        proof (cases "(\<exists>e. r2 = Inl e) \<or>
            \<not> (contains url ''file-access'' \<or> contains (lower url) ''download'')")
          case True
          then have "snd (crawl_download_page env url s) = s2"
            using assms g Some nofile parsed p
            by (auto simp: crawl_download_page_def split: sum.splits)
          then show ?thesis using one [OF f2] by simp
        next
          case False
          obtain r3 s3 where a: "accept_terms_and_download env url s2 = (r3, s3)"
            by (cases "accept_terms_and_download env url s2")
          from accept_terms_frame [OF a] obtain e3 where
            f3: "VISITED_URLS s3 = VISITED_URLS s2" "trace s3 = trace s2 @ Call_get_page url # e3"
            "page_fetches e3 = []"
            by blast
          have two: "VISITED_URLS s' = insert url (VISITED_URLS s) \<and>
              (page_fetches (events_since s s') = [url] \<or>
               page_fetches (events_since s s') = [url, url])"
            if "VISITED_URLS s' = VISITED_URLS s3" "trace s' = trace s3 @ e4" "page_fetches e4 = []"
            for s' e4
            using that f1 f2 f3 by (simp add: events_since_def)
          show ?thesis
          proof (cases r3)
            case (Inl e)
            then have "snd (crawl_download_page env url s) = s3"
              using assms g Some nofile parsed p False a
              by (auto simp: crawl_download_page_def split: sum.splits)
            moreover have "VISITED_URLS s3 = VISITED_URLS s3" "trace s3 = trace s3 @ []"
              "page_fetches [] = []" by simp_all
            ultimately show ?thesis using two by simp
          next
            case (Inr form_links)
            obtain r4 s4 where q: "loinc_process_links env form_links s3 = (r4, s4)"
              by (cases "loinc_process_links env form_links s3")
            then have "snd (crawl_download_page env url s) = s4"
              using assms g Some nofile parsed p False a Inr
              by (auto simp: crawl_download_page_def split: sum.splits)
            moreover from loinc_process_links_frame [OF q] obtain e4 where
              "VISITED_URLS s4 = VISITED_URLS s3" "trace s4 = trace s3 @ e4" "page_fetches e4 = []"
              by blast
            ultimately show ?thesis using two by simp
          qed
        qed
      qed
    qed
  qed
qed

lemma fetch_inv_init: "fetch_inv init_state"
  by (simp add: fetch_inv_def init_state_def)

lemma cms_main_distinct: "distinct (page_fetches (trace (cms_main env)))"
proof -
  obtain ok s0 where m: "fs env (Makedirs cms_DOWNLOAD_DIR) init_state = (ok, s0)"
    by (cases "fs env (Makedirs cms_DOWNLOAD_DIR) init_state")
  note f = fs_frame [OF m]
  have inv0: "fetch_inv s0 \<and> {} \<subseteq> VISITED_URLS s0"
    using f by (simp add: fetch_inv_def init_state_def)
  show ?thesis
  proof (cases ok)
    case False
    then have "cms_main env = s0" using m by (simp add: cms_main_def)
    then show ?thesis using inv0 by (simp add: fetch_inv_def)
  next
    case True
    then have "cms_main env = cms_crawl_page env cms_START_URL 0 3 s0"
      using m by (simp add: cms_main_def)
    then show ?thesis
      using cms_crawl_page_inv [OF inv0, of env cms_START_URL 0 3] by (simp add: fetch_inv_def)
  qed
qed

text \<open>
  C1, as the code has it. A crawl step entered on a URL of \<open>VISITED_URLS\<close> returns the
  state as it is, so it sends no request: the test comes before the fetch. In
  \<open>crawl_cms_hcpcs.py\<close> no URL is therefore fetched as a page twice: \<open>crawl_page\<close> keeps
  the invariant \<open>fetch_inv\<close>, and the page fetches of a whole run (\<open>cms_main\<close>) are
  distinct. In \<open>download_loinc.py\<close> a step of \<open>crawl_download_page\<close> on a new URL marks
  it visited and fetches that URL as a page once itself, and once more when it goes on
  to \<open>accept_terms_and_download\<close>, which calls \<open>get_page\<close> on the same URL without
  looking at \<open>VISITED_URLS\<close>.
\<close>

theorem visited_url_is_not_fetched:
  "(url \<in> VISITED_URLS s \<longrightarrow>
      cms_crawl_page env url depth max_depth s = s \<and>
      crawl_download_page env url s = (Inr (), s)) \<and>
   (fetch_inv s \<longrightarrow> fetch_inv (cms_crawl_page env url depth max_depth s)) \<and>
   distinct (page_fetches (trace (cms_main env))) \<and>
   (url \<notin> VISITED_URLS s \<longrightarrow>
      VISITED_URLS (snd (crawl_download_page env url s)) = insert url (VISITED_URLS s) \<and>
      (page_fetches (events_since s (snd (crawl_download_page env url s))) = [url] \<or>
       page_fetches (events_since s (snd (crawl_download_page env url s))) = [url, url]))"
proof (intro conjI impI)
  show "cms_crawl_page env url depth max_depth s = s" if "url \<in> VISITED_URLS s"
    using that by (simp add: cms_crawl_page.simps)
  show "crawl_download_page env url s = (Inr (), s)" if "url \<in> VISITED_URLS s"
    using that by (simp add: crawl_download_page_def)
  show "fetch_inv (cms_crawl_page env url depth max_depth s)" if "fetch_inv s"
    using cms_crawl_page_inv [of s "{}" env url depth max_depth] that by simp
  show "distinct (page_fetches (trace (cms_main env)))"
    by (rule cms_main_distinct)
  show "VISITED_URLS (snd (crawl_download_page env url s)) = insert url (VISITED_URLS s)"
    if "url \<notin> VISITED_URLS s"
    using crawl_download_page_fetches [OF that] by simp
  show "page_fetches (events_since s (snd (crawl_download_page env url s))) = [url] \<or>
       page_fetches (events_since s (snd (crawl_download_page env url s))) = [url, url]"
    if "url \<notin> VISITED_URLS s"
    using crawl_download_page_fetches [OF that] by simp
qed

theorem visited_url_is_not_fetched_witness:
  "crawl_seed \<in> VISITED_URLS (init_state\<lparr>VISITED_URLS := {crawl_seed}\<rparr>) \<and>
   cms_crawl_page seed_env crawl_seed 0 1 (init_state\<lparr>VISITED_URLS := {crawl_seed}\<rparr>)
     = init_state\<lparr>VISITED_URLS := {crawl_seed}\<rparr> \<and>
   crawl_download_page seed_env crawl_seed (init_state\<lparr>VISITED_URLS := {crawl_seed}\<rparr>)
     = (Inr (), init_state\<lparr>VISITED_URLS := {crawl_seed}\<rparr>) \<and>
   fetch_inv init_state \<and>
   fetch_inv (cms_crawl_page seed_env crawl_seed 0 1 init_state) \<and>
   crawl_seed \<notin> VISITED_URLS init_state \<and>
   VISITED_URLS (snd (crawl_download_page seed_env crawl_seed init_state))
     = insert crawl_seed (VISITED_URLS init_state)"
proof -
  have m: "crawl_seed \<in> VISITED_URLS (init_state\<lparr>VISITED_URLS := {crawl_seed}\<rparr>)"
    by simp
  have n: "crawl_seed \<notin> VISITED_URLS init_state"
    by (simp add: init_state_def)
  note t1 = visited_url_is_not_fetched [where env = seed_env and url = crawl_seed
      and depth = 0 and max_depth = 1 and s = "init_state\<lparr>VISITED_URLS := {crawl_seed}\<rparr>"]
  note t2 = visited_url_is_not_fetched [where env = seed_env and url = crawl_seed
      and depth = 0 and max_depth = 1 and s = init_state]
  note a = t1 [THEN conjunct1, rule_format, OF m]
  note b = t2 [THEN conjunct2, THEN conjunct1, rule_format, OF fetch_inv_init]
  note c = t2 [THEN conjunct2, THEN conjunct2, THEN conjunct2, rule_format, OF n]
  show ?thesis
    by (intro conjI m n fetch_inv_init a [THEN conjunct1] a [THEN conjunct2] b c [THEN conjunct1])
qed

lemmas loinc_crawl_defs = crawl_download_page_def loinc_get_page_def loinc_get_page_from.simps
  loinc_is_file_def loinc_find_downloadable_links_def loinc_anchor_links_def
  loinc_form_links_def text_links_def re_findall_def accept_terms_and_download_def
  terms_form_data_def loinc_get_filename_from_url_def loinc_DOWNLOAD_EXTENSIONS_def
  loinc_keywords_def loinc_pattern_extensions_def loinc_DOWNLOAD_PAGE_URL_def loinc_BASE_URL_def
  terms_env_def download_defs

text \<open>
  The claim as stated fails on \<open>download_loinc.py\<close>: on \<open>terms_env\<close> one step of
  \<open>crawl_download_page\<close> on the download page, from the empty sets, calls \<open>get_page\<close> on
  that URL twice and sends the same request twice.
\<close>

theorem page_fetched_twice_counterexample:
  "trace (snd (crawl_download_page terms_env loinc_DOWNLOAD_PAGE_URL init_state)) =
     [Call_get_page loinc_DOWNLOAD_PAGE_URL, Http (GET loinc_DOWNLOAD_PAGE_URL 60 False),
      Call_get_page loinc_DOWNLOAD_PAGE_URL, Http (GET loinc_DOWNLOAD_PAGE_URL 60 False)] \<and>
   page_fetches (trace (snd (crawl_download_page terms_env loinc_DOWNLOAD_PAGE_URL init_state))) =
     [loinc_DOWNLOAD_PAGE_URL, loinc_DOWNLOAD_PAGE_URL] \<and>
   \<not> distinct (page_fetches
     (trace (snd (crawl_download_page terms_env loinc_DOWNLOAD_PAGE_URL init_state))))"
proof -
  have "trace (snd (crawl_download_page terms_env loinc_DOWNLOAD_PAGE_URL init_state)) =
     [Call_get_page loinc_DOWNLOAD_PAGE_URL, Http (GET loinc_DOWNLOAD_PAGE_URL 60 False),
      Call_get_page loinc_DOWNLOAD_PAGE_URL, Http (GET loinc_DOWNLOAD_PAGE_URL 60 False)]"
    by (simp add: loinc_crawl_defs)
  then show ?thesis by simp
qed

section \<open>The classification of links (C7)\<close>






end
